theory Spec2Isabelle
  imports Complex_Main "HOL-Library.Product_Lexorder"
begin

section \<open>Data model of \<^verbatim>\<open>src/api/v1/accounts.ts\<close>\<close>

text \<open>
  The handlers of \<^verbatim>\<open>accounts.ts\<close> read and write relational tables through a query
  builder. A table is a list of rows, a row is a record, the store is the record of the
  tables, and a handler is a function from the store (and the request) to the new store
  and the response.

  A \<^verbatim>\<open>Uuid\<close> is the 128-bit number the database compares it as (\<^verbatim>\<open>lt(posts.id, max_id)\<close>);
  a timestamp and an interval are whole numbers of microseconds.
\<close>

type_synonym uuid = nat
type_synonym timestamp = int
type_synonym interval = int

datatype visibility = Public | Unlisted | Private | Direct

record accountOwner =
  owner_id :: uuid
  owner_handle :: string

record account =
  account_id :: uuid
  account_iri :: string
  account_handle :: string
  account_protected :: bool
  account_owner :: "accountOwner option"

record follow =
  follow_followerId :: uuid
  follow_followingId :: uuid
  follow_approved :: "timestamp option"

record block =
  block_accountId :: uuid
  block_blockedAccountId :: uuid

record mute =
  mute_id :: uuid
  mute_accountId :: uuid
  mute_mutedAccountId :: uuid
  mute_notifications :: bool
  mute_duration :: "interval option"
  mute_created :: timestamp

record post =
  post_id :: uuid
  post_accountId :: uuid
  post_visibility :: visibility
  post_replyTargetId :: "uuid option"
  post_sharingId :: "uuid option"
  post_published :: timestamp

record mention =
  mention_postId :: uuid
  mention_accountId :: uuid

record pinnedPost =
  pinned_postId :: uuid
  pinned_accountId :: uuid

record medium =
  media_postId :: "uuid option"

record store =
  accounts :: "account list"
  follows :: "follow list"
  blocks :: "block list"
  mutes :: "mute list"
  posts :: "post list"
  mentions :: "mention list"
  pinnedPosts :: "pinnedPost list"
  media :: "medium list"

text \<open>The JSON error bodies and their status codes: 404, 422, 403, and the 500 of an
  exception that no handler catches.\<close>

datatype error = RecordNotFound | AuthenticationRequired | ActionNotAllowed | UncaughtRangeError

section \<open>\<^verbatim>\<open>GET /:id/statuses\<close>\<close>

text \<open>The validated query string. \<^verbatim>\<open>timelineQuerySchema\<close> (\<^verbatim>\<open>./timelines\<close>) gives
  \<^verbatim>\<open>max_id\<close>, \<^verbatim>\<open>min_id\<close> and \<^verbatim>\<open>limit\<close>, a row count; a flag is true when the
  parameter is the string \<^verbatim>\<open>"true"\<close>. The handler never reads \<^verbatim>\<open>exclude_reblogs\<close> and
  \<^verbatim>\<open>tagged\<close>.\<close>

record statusesQuery =
  q_max_id :: "uuid option"
  q_min_id :: "uuid option"
  q_limit :: "nat option"
  q_only_media :: bool
  q_exclude_replies :: bool
  q_pinned :: bool

text \<open>\<^verbatim>\<open>or(isNull(mutes.duration), gt(sql`created + duration`, sql`CURRENT_TIMESTAMP`))\<close>,
  which stands in both mute sub-queries.\<close>

definition mute_in_force :: "timestamp \<Rightarrow> mute \<Rightarrow> bool" where
  "mute_in_force now m =
     (case mute_duration m of None \<Rightarrow> True | Some d \<Rightarrow> mute_created m + d > now)"

text \<open>The sub-queries of the \<^verbatim>\<open>where\<close> clause, each the list of the selected column.\<close>

definition mentioned_postIds :: "store \<Rightarrow> uuid \<Rightarrow> uuid list" where
  "mentioned_postIds db viewer =
     map mention_postId (filter (\<lambda>m. mention_accountId m = viewer) (mentions db))"

definition muted_accountIds :: "store \<Rightarrow> timestamp \<Rightarrow> uuid \<Rightarrow> uuid list" where
  "muted_accountIds db now viewer =
     map mute_mutedAccountId
       (filter (\<lambda>m. mute_accountId m = viewer \<and> mute_in_force now m) (mutes db))"

definition blocked_accountIds :: "store \<Rightarrow> uuid \<Rightarrow> uuid list" where
  "blocked_accountIds db viewer =
     map block_blockedAccountId (filter (\<lambda>b. block_accountId b = viewer) (blocks db))"

definition blocking_accountIds :: "store \<Rightarrow> uuid \<Rightarrow> uuid list" where
  "blocking_accountIds db viewer =
     map block_accountId (filter (\<lambda>b. block_blockedAccountId b = viewer) (blocks db))"

text \<open>\<^verbatim>\<open>select posts.id from posts inner join mutes on mutes.mutedAccountId = posts.accountId
  where mutes.accountId = viewer and (the mute is in force)\<close>.\<close>

definition muted_postIds :: "store \<Rightarrow> timestamp \<Rightarrow> uuid \<Rightarrow> uuid list" where
  "muted_postIds db now viewer =
     concat (map (\<lambda>p. map (\<lambda>m. post_id p)
       (filter (\<lambda>m. mute_mutedAccountId m = post_accountId p \<and>
                     mute_accountId m = viewer \<and> mute_in_force now m) (mutes db)))
       (posts db))"

definition pinned_postIds :: "store \<Rightarrow> uuid \<Rightarrow> uuid list" where
  "pinned_postIds db ident =
     map pinned_postId (filter (\<lambda>r. pinned_accountId r = ident) (pinnedPosts db))"

text \<open>The \<^verbatim>\<open>where\<close> clause of \<^verbatim>\<open>db.query.posts.findMany\<close>, as a predicate on a row of
  \<^verbatim>\<open>posts\<close>. \<^verbatim>\<open>following\<close> is the result of the query before it; an \<^verbatim>\<open>undefined\<close>
  operand of \<^verbatim>\<open>or\<close> and \<^verbatim>\<open>and\<close> is dropped.\<close>

definition visibility_clause :: "store \<Rightarrow> uuid \<Rightarrow> follow list \<Rightarrow> post \<Rightarrow> bool" where
  "visibility_clause db viewer following p =
     (post_accountId p = viewer \<or>
      post_visibility p = Public \<or>
      post_visibility p = Unlisted \<or>
      (length following > 0 \<and> post_visibility p = Private) \<or>
      (post_visibility p = Direct \<and> post_id p \<in> set (mentioned_postIds db viewer)))"

definition sharing_clause :: "store \<Rightarrow> timestamp \<Rightarrow> uuid \<Rightarrow> post \<Rightarrow> bool" where
  "sharing_clause db now viewer p =
     (case post_sharingId p of
        None \<Rightarrow> True
      | Some s \<Rightarrow> s \<notin> set (muted_postIds db now viewer))"

definition option_clauses :: "store \<Rightarrow> uuid \<Rightarrow> statusesQuery \<Rightarrow> post \<Rightarrow> bool" where
  "option_clauses db ident q p =
     ((if q_pinned q then post_id p \<in> set (pinned_postIds db ident) else True) \<and>
      (if q_exclude_replies q then post_replyTargetId p = None else True) \<and>
      (if q_only_media q then Some (post_id p) \<in> set (map media_postId (media db)) else True) \<and>
      (case q_max_id q of None \<Rightarrow> True | Some c \<Rightarrow> post_id p < c) \<and>
      (case q_min_id q of None \<Rightarrow> True | Some c \<Rightarrow> post_id p > c))"

definition statuses_where ::
  "store \<Rightarrow> timestamp \<Rightarrow> uuid \<Rightarrow> uuid \<Rightarrow> follow list \<Rightarrow> statusesQuery \<Rightarrow> post \<Rightarrow> bool" where
  "statuses_where db now viewer ident following q p =
     (post_accountId p = ident \<and>
      visibility_clause db viewer following p \<and>
      post_accountId p \<notin> set (muted_accountIds db now viewer) \<and>
      post_accountId p \<notin> set (blocked_accountIds db viewer) \<and>
      post_accountId p \<notin> set (blocking_accountIds db viewer) \<and>
      sharing_clause db now viewer p \<and>
      option_clauses db ident q p)"

text \<open>\<^verbatim>\<open>orderBy: [desc(posts.published), desc(posts.id)]\<close>.\<close>

definition order_by_published_id_desc :: "post list \<Rightarrow> post list" where
  "order_by_published_id_desc ps = rev (sort_key (\<lambda>p. (post_published p, post_id p)) ps)"

text \<open>The query before the listing, and the listing query with its
  \<^verbatim>\<open>limit: limit + 1\<close>.\<close>

definition following_rows :: "store \<Rightarrow> uuid \<Rightarrow> uuid \<Rightarrow> follow list" where
  "following_rows db viewer ident =
     filter (\<lambda>f. follow_followerId f = viewer \<and> follow_followingId f = ident) (follows db)"

text \<open>The conjuncts of the \<^verbatim>\<open>where\<close> clause that read no mute row, with the \<^verbatim>\<open>following\<close>
  of the same store: what the clause asks of a post when the viewer mutes nobody.\<close>

definition unmuted_where :: "store \<Rightarrow> uuid \<Rightarrow> uuid \<Rightarrow> statusesQuery \<Rightarrow> post \<Rightarrow> bool" where
  "unmuted_where db viewer ident q p \<longleftrightarrow>
     post_accountId p = ident \<and>
     visibility_clause db viewer (following_rows db viewer ident) p \<and>
     post_accountId p \<notin> set (blocked_accountIds db viewer) \<and>
     post_accountId p \<notin> set (blocking_accountIds db viewer) \<and>
     option_clauses db ident q p"

definition matching_posts ::
  "store \<Rightarrow> timestamp \<Rightarrow> uuid \<Rightarrow> uuid \<Rightarrow> statusesQuery \<Rightarrow> post list" where
  "matching_posts db now viewer ident q =
     order_by_published_id_desc
       (filter (statuses_where db now viewer ident (following_rows db viewer ident) q) (posts db))"

definition query_limit :: "statusesQuery \<Rightarrow> nat" where
  "query_limit q = (case q_limit q of None \<Rightarrow> 20 | Some l \<Rightarrow> l)"

definition postList :: "store \<Rightarrow> timestamp \<Rightarrow> uuid \<Rightarrow> uuid \<Rightarrow> statusesQuery \<Rightarrow> post list" where
  "postList db now viewer ident q = take (query_limit q + 1) (matching_posts db now viewer ident q)"

text \<open>The end of the handler: the \<^verbatim>\<open>max_id\<close> of the \<^verbatim>\<open>Link\<close> header and the rows of the
  body. \<^verbatim>\<open>postList[limit]\<close> is read only when \<^verbatim>\<open>postList.length > limit\<close>.\<close>

definition statuses_page ::
  "store \<Rightarrow> timestamp \<Rightarrow> uuid \<Rightarrow> uuid \<Rightarrow> statusesQuery \<Rightarrow> post list \<times> uuid option" where
  "statuses_page db now viewer ident q =
     (let limit = query_limit q;
          rows = postList db now viewer ident q;
          next = (if length rows > limit then Some (post_id (rows ! limit)) else None)
      in (take limit rows, next))"

text \<open>Modelled from the spec: \<^verbatim>\<open>persistAccountPosts\<close> (\<^verbatim>\<open>federation/account\<close>) is not part of
  the sources. It fetches up to a bound of the remote actor's recent posts and persists
  them, swallowing every failure. What it leaves in the tables \<^verbatim>\<open>posts\<close>,
  \<^verbatim>\<open>mentions\<close> and \<^verbatim>\<open>media\<close> is the parameter \<open>fetch\<close>; it writes no relationship table.\<close>

type_synonym fetcher = "store \<Rightarrow> account \<Rightarrow> nat \<Rightarrow> post list \<times> mention list \<times> medium list"

definition persistAccountPosts :: "fetcher \<Rightarrow> store \<Rightarrow> account \<Rightarrow> nat \<Rightarrow> store" where
  "persistAccountPosts fetch db a n =
     (case fetch db a n of
        (ps, ms, md) \<Rightarrow> db\<lparr>posts := ps, mentions := ms, media := md\<rparr>)"

text \<open>The handler. \<open>ident\<close> is \<^verbatim>\<open>None\<close> when the path parameter is no UUID, \<open>token\<close> is
  the token's \<^verbatim>\<open>accountOwner\<close>, \<open>fetch_posts\<close> is the constant \<^verbatim>\<open>REMOTE_ACTOR_FETCH_POSTS\<close>.
  \<^verbatim>\<open>serializePost\<close> is left out: the body is the list of rows.\<close>

definition statuses ::
  "nat \<Rightarrow> fetcher \<Rightarrow> store \<Rightarrow> timestamp \<Rightarrow> uuid option \<Rightarrow> accountOwner option \<Rightarrow> statusesQuery
     \<Rightarrow> store \<times> (error + post list \<times> uuid option)" where
  "statuses fetch_posts fetch db now ident token q =
     (case ident of
        None \<Rightarrow> (db, Inl RecordNotFound)
      | Some i \<Rightarrow>
     (case token of
        None \<Rightarrow> (db, Inl AuthenticationRequired)
      | Some tokenOwner \<Rightarrow>
     (case find (\<lambda>a. account_id a = i) (accounts db) of
        None \<Rightarrow> (db, Inl RecordNotFound)
      | Some acct \<Rightarrow>
          if list_ex (\<lambda>b. block_blockedAccountId b = owner_id tokenOwner)
               (filter (\<lambda>b. block_accountId b = account_id acct \<and>
                             block_blockedAccountId b = owner_id tokenOwner) (blocks db))
          then (db, Inr ([], None))
          else
            let cnt = length (filter (\<lambda>p. post_accountId p = account_id acct) (posts db));
                db' = (if account_owner acct = None \<and> cnt < fetch_posts
                       then persistAccountPosts fetch db acct fetch_posts else db)
            in (db', Inr (statuses_page db' now (owner_id tokenOwner) i q)))))"

text \<open>The rows of a response body; an error response lists nothing.\<close>

definition response_posts :: "store \<times> (error + post list \<times> uuid option) \<Rightarrow> post list" where
  "response_posts r = (case snd r of Inl e \<Rightarrow> [] | Inr (page, next) \<Rightarrow> page)"

section \<open>The relationship handlers\<close>

text \<open>Every relationship handler ends by reading the account again with the rows that tie it
  to the token's owner (\<^verbatim>\<open>with: { following, followers, mutedBy, blocks, blockedBy }\<close>)
  and answers \<^verbatim>\<open>serializeRelationship\<close> of them, which is not part of the sources: the
  response is the rows read.\<close>

record relationship =
  rel_account :: account
  rel_following :: "follow list"
  rel_followers :: "follow list"
  rel_mutedBy :: "mute list"
  rel_blocks :: "block list"
  rel_blockedBy :: "block list"

definition read_relationship :: "store \<Rightarrow> uuid \<Rightarrow> uuid \<Rightarrow> error + relationship" where
  "read_relationship db i owner =
     (case find (\<lambda>a. account_id a = i) (accounts db) of
        None \<Rightarrow> Inl RecordNotFound
      | Some a \<Rightarrow> Inr
          \<lparr>rel_account = a,
           rel_following = filter (\<lambda>f. follow_followerId f = account_id a \<and>
                                         follow_followingId f = owner) (follows db),
           rel_followers = filter (\<lambda>f. follow_followingId f = account_id a \<and>
                                         follow_followerId f = owner) (follows db),
           rel_mutedBy = filter (\<lambda>m. mute_mutedAccountId m = account_id a \<and>
                                       mute_accountId m = owner) (mutes db),
           rel_blocks = filter (\<lambda>b. block_accountId b = account_id a \<and>
                                      block_blockedAccountId b = owner) (blocks db),
           rel_blockedBy = filter (\<lambda>b. block_blockedAccountId b = account_id a \<and>
                                         block_accountId b = owner) (blocks db)\<rparr>)"

subsection \<open>\<^verbatim>\<open>POST /:id/block\<close>\<close>

text \<open>Modelled from the spec: \<^verbatim>\<open>blockAccount\<close> (\<^verbatim>\<open>federation/account\<close>) is not part of the
  sources. The spec's \<open>block(A,B)\<close> deletes \<open>Follow(A,B)\<close> and \<open>Follow(B,A)\<close> if present and
  upserts \<open>Block(A,B)\<close>; the activity it sends to a remote account is left out.\<close>

definition blockAccount :: "store \<Rightarrow> accountOwner \<Rightarrow> account \<Rightarrow> store" where
  "blockAccount db blocker blockee =
     db\<lparr>follows :=
          filter (\<lambda>f. \<not> (follow_followerId f = owner_id blocker \<and>
                           follow_followingId f = account_id blockee) \<and>
                      \<not> (follow_followerId f = account_id blockee \<and>
                           follow_followingId f = owner_id blocker)) (follows db),
        blocks :=
          (if list_ex (\<lambda>b. block_accountId b = owner_id blocker \<and>
                            block_blockedAccountId b = account_id blockee) (blocks db)
           then blocks db
           else blocks db @ [\<lparr>block_accountId = owner_id blocker,
                               block_blockedAccountId = account_id blockee\<rparr>])\<rparr>"

definition post_block ::
  "store \<Rightarrow> uuid option \<Rightarrow> accountOwner option \<Rightarrow> store \<times> (error + relationship)" where
  "post_block db ident token =
     (case ident of
        None \<Rightarrow> (db, Inl RecordNotFound)
      | Some i \<Rightarrow>
     (case token of
        None \<Rightarrow> (db, Inl AuthenticationRequired)
      | Some owner \<Rightarrow>
     (case find (\<lambda>a. account_id a = i) (accounts db) of
        None \<Rightarrow> (db, Inl RecordNotFound)
      | Some acct \<Rightarrow>
          let db' = blockAccount db owner acct
          in (db', read_relationship db' i (owner_id owner)))))"

subsection \<open>\<^verbatim>\<open>POST /:id/unmute\<close>\<close>

text \<open>The handler deletes before it looks the account up.\<close>

definition post_unmute ::
  "store \<Rightarrow> uuid option \<Rightarrow> accountOwner option \<Rightarrow> store \<times> (error + relationship)" where
  "post_unmute db ident token =
     (case ident of
        None \<Rightarrow> (db, Inl RecordNotFound)
      | Some i \<Rightarrow>
     (case token of
        None \<Rightarrow> (db, Inl AuthenticationRequired)
      | Some owner \<Rightarrow>
          let db' = db\<lparr>mutes := filter (\<lambda>m. \<not> (mute_accountId m = owner_id owner \<and>
                                                 mute_mutedAccountId m = i)) (mutes db)\<rparr>
          in (db', read_relationship db' i (owner_id owner))))"

subsection \<open>\<^verbatim>\<open>POST /:id/mute\<close>\<close>

text \<open>\<^verbatim>\<open>new Date(v).toISOString().replace(/^[^T]+T|\.[^Z]+Z?$/g, "")\<close>. A \<^verbatim>\<open>Date\<close> holds a
  time value of at most 8640000000000000 milliseconds either side of the epoch: a number
  \<open>v\<close> beyond that makes it invalid and \<^verbatim>\<open>toISOString\<close> throws a \<^verbatim>\<open>RangeError\<close>; of a
  number within, the time value is the whole milliseconds, the fraction cut off. Of the ISO text
  \<^verbatim>\<open>YYYY-MM-DDTHH:mm:ss.sssZ\<close> the regular expression deletes the date with its \<^verbatim>\<open>T\<close> and
  the fraction with its \<^verbatim>\<open>Z\<close>: what stays is the field \<^verbatim>\<open>HH:mm:ss\<close>, the hour, minute
  and second of the time value, each padded to two digits.\<close>

definition two_digits :: "nat \<Rightarrow> string" where
  "two_digits n = [''0123456789'' ! (n div 10), ''0123456789'' ! (n mod 10)]"

definition toISOString_time :: "real \<Rightarrow> error + string" where
  "toISOString_time v =
     (if \<bar>v\<bar> > 8640000000000000 then Inl UncaughtRangeError
      else
        let ms = (if 0 \<le> v then \<lfloor>v\<rfloor> else \<lceil>v\<rceil>)
        in Inr (two_digits (nat ((ms div 3600000) mod 24)) @ '':'' @
                two_digits (nat ((ms div 60000) mod 60)) @ '':'' @
                two_digits (nat ((ms div 1000) mod 60))))"

text \<open>\<^verbatim>\<open>durationStr\<close>. The \<^verbatim>\<open>duration\<close> of the request is any number
  (\<^verbatim>\<open>z.number()\<close>), whole or not; it is taken as the real number it stands for, and the
  product \<^verbatim>\<open>duration * 1000\<close> as the exact one.\<close>

definition durationStr :: "real \<Rightarrow> error + string option" where
  "durationStr duration =
     (if duration \<le> 0 then Inr None
      else case toISOString_time (duration * 1000) of
             Inl e \<Rightarrow> Inl e
           | Inr s \<Rightarrow> Inr (Some s))"

text \<open>The column \<^verbatim>\<open>mutes.duration\<close> is an interval: the database reads the text
  \<^verbatim>\<open>HH:MM:SS\<close> as that many hours, minutes and seconds.\<close>

definition digit_of :: "char \<Rightarrow> int" where
  "digit_of c = int (of_char c) - 48"

definition interval_of_text :: "string \<Rightarrow> interval" where
  "interval_of_text s =
     (if length s = 8
      then (((10 * digit_of (s ! 0) + digit_of (s ! 1)) * 60
             + (10 * digit_of (s ! 3) + digit_of (s ! 4))) * 60
             + (10 * digit_of (s ! 6) + digit_of (s ! 7))) * 1000000
      else 0)"

text \<open>\<^verbatim>\<open>insert(mutes).values(row).onConflictDoUpdate({target: [accountId, mutedAccountId],
  set: {notifications, duration, created: new Date()}})\<close>. The row inserted takes the
  column default of \<^verbatim>\<open>created\<close>, the current time.\<close>

definition mute_pair :: "mute \<Rightarrow> uuid \<times> uuid" where
  "mute_pair m = (mute_accountId m, mute_mutedAccountId m)"

definition upsert_mute :: "mute list \<Rightarrow> mute \<Rightarrow> timestamp \<Rightarrow> mute list" where
  "upsert_mute rows new now =
     (if list_ex (\<lambda>m. mute_pair m = mute_pair new) rows
      then map (\<lambda>m. if mute_pair m = mute_pair new
                     then m\<lparr>mute_notifications := mute_notifications new,
                            mute_duration := mute_duration new,
                            mute_created := now\<rparr>
                     else m) rows
      else rows @ [new])"

text \<open>The handler; \<open>new_id\<close> is \<^verbatim>\<open>crypto.randomUUID()\<close>, \<open>now\<close> the clock.\<close>

definition post_mute ::
  "store \<Rightarrow> timestamp \<Rightarrow> uuid \<Rightarrow> uuid option \<Rightarrow> accountOwner option \<Rightarrow> bool \<Rightarrow> real
     \<Rightarrow> store \<times> (error + relationship)" where
  "post_mute db now new_id ident token notifications duration =
     (case ident of
        None \<Rightarrow> (db, Inl RecordNotFound)
      | Some i \<Rightarrow>
     (case token of
        None \<Rightarrow> (db, Inl AuthenticationRequired)
      | Some owner \<Rightarrow>
     (case find (\<lambda>a. account_id a = i) (accounts db) of
        None \<Rightarrow> (db, Inl RecordNotFound)
      | Some acct \<Rightarrow>
     (case durationStr duration of
        Inl e \<Rightarrow> (db, Inl e)
      | Inr text \<Rightarrow>
          let db' = db\<lparr>mutes := upsert_mute (mutes db)
                      \<lparr>mute_id = new_id, mute_accountId = owner_id owner,
                       mute_mutedAccountId = account_id acct,
                       mute_notifications = notifications,
                       mute_duration = map_option interval_of_text text,
                       mute_created = now\<rparr> now\<rparr>
          in (db', read_relationship db' i (owner_id owner))))))"

text \<open>Following the claim's words: the time-of-day text \<open>HH:MM:SS\<close> of a number of
  seconds, and the rows of the mutes table for an ordered pair.\<close>

definition hh_mm_ss :: "nat \<Rightarrow> string" where
  "hh_mm_ss secs =
     two_digits (secs div 3600) @ '':'' @ two_digits (secs div 60 mod 60) @ '':'' @
     two_digits (secs mod 60)"

definition mute_rows :: "store \<Rightarrow> uuid \<Rightarrow> uuid \<Rightarrow> mute list" where
  "mute_rows db muter muted = filter (\<lambda>m. mute_pair m = (muter, muted)) (mutes db)"

subsection \<open>\<^verbatim>\<open>POST /:id/follow\<close>\<close>

text \<open>Modelled from the spec: \<^verbatim>\<open>followAccount\<close> (\<^verbatim>\<open>federation/account\<close>) is not part of the
  sources. The spec's \<open>follow(A,B)\<close> has the precondition that there is no Block in either
  direction and \<open>A \<noteq> B\<close>; it creates \<open>Follow(A,B, approved=null)\<close> when \<open>B\<close> is protected and
  \<open>Follow(A,B, approved=now)\<close> otherwise, as an upsert; when the precondition is violated it
  returns the null sentinel and throws nothing. The activity it sends to a remote account
  is left out, and of the follower only the id is read.\<close>

definition follow_blocked :: "store \<Rightarrow> uuid \<Rightarrow> uuid \<Rightarrow> bool" where
  "follow_blocked db a b =
     list_ex (\<lambda>r. (block_accountId r = a \<and> block_blockedAccountId r = b) \<or>
                   (block_accountId r = b \<and> block_blockedAccountId r = a)) (blocks db)"

definition followAccount :: "store \<Rightarrow> timestamp \<Rightarrow> uuid \<Rightarrow> account \<Rightarrow> store \<times> follow option" where
  "followAccount db now follower following =
     (if follower = account_id following \<or> follow_blocked db follower (account_id following)
      then (db, None)
      else
        case find (\<lambda>f. follow_followerId f = follower \<and>
                        follow_followingId f = account_id following) (follows db) of
          Some f \<Rightarrow> (db, Some f)
        | None \<Rightarrow>
            let f = \<lparr>follow_followerId = follower, follow_followingId = account_id following,
                     follow_approved = (if account_protected following then None else Some now)\<rparr>
            in (db\<lparr>follows := follows db @ [f]\<rparr>, Some f))"

text \<open>The handler: \<^verbatim>\<open>if (follow == null) return c.json({ error: "The action is not
  allowed" }, 403)\<close>.\<close>

definition post_follow ::
  "store \<Rightarrow> timestamp \<Rightarrow> uuid option \<Rightarrow> accountOwner option \<Rightarrow> store \<times> (error + relationship)" where
  "post_follow db now ident token =
     (case ident of
        None \<Rightarrow> (db, Inl RecordNotFound)
      | Some i \<Rightarrow>
     (case token of
        None \<Rightarrow> (db, Inl AuthenticationRequired)
      | Some owner \<Rightarrow>
     (case find (\<lambda>a. account_id a = i) (accounts db) of
        None \<Rightarrow> (db, Inl RecordNotFound)
      | Some following \<Rightarrow>
     (case followAccount db now (owner_id owner) following of
        (db', None) \<Rightarrow> (db', Inl ActionNotAllowed)
      | (db', Some f) \<Rightarrow> (db', read_relationship db' (account_id following) (owner_id owner))))))"

section \<open>\<^verbatim>\<open>GET /lookup\<close>\<close>

text \<open>What \<^verbatim>\<open>lookupObject\<close> brings back from the network is an object or null, and
  \<^verbatim>\<open>isActor\<close> tells an actor from any other object. The network is the parameter
  \<open>remote\<close>, asked with the identifier and the handle of the token's owner, whose document
  loader signs the request.\<close>

record actor =
  actor_iri :: string
  actor_handle :: string
  actor_protected :: bool

datatype object = Actor actor | OtherObject

type_synonym remote = "string \<Rightarrow> string option \<Rightarrow> object option"

text \<open>Modelled from the spec: \<^verbatim>\<open>persistAccount\<close> (\<^verbatim>\<open>federation/account\<close>) is not part of
  the sources. It upserts an Account row that translates the fields of the actor document,
  matching an existing row by the federation IRI.\<close>

definition persistAccount :: "store \<Rightarrow> uuid \<Rightarrow> actor \<Rightarrow> store \<times> account option" where
  "persistAccount db new_id a =
     (case find (\<lambda>r. account_iri r = actor_iri a) (accounts db) of
        Some r \<Rightarrow>
          (db\<lparr>accounts := map (\<lambda>x. if account_iri x = actor_iri a
                                    then x\<lparr>account_handle := actor_handle a,
                                           account_protected := actor_protected a\<rparr>
                                    else x) (accounts db)\<rparr>,
           Some (r\<lparr>account_handle := actor_handle a, account_protected := actor_protected a\<rparr>))
      | None \<Rightarrow>
          let r = \<lparr>account_id = new_id, account_iri = actor_iri a,
                   account_handle = actor_handle a, account_protected = actor_protected a,
                   account_owner = None\<rparr>
          in (db\<lparr>accounts := accounts db @ [r]\<rparr>, Some r))"

text \<open>The handle that the handler looks for: \<^verbatim>\<open>acct.includes("@") ? `@${acct}` :
  `@${acct}@${host}`\<close>.\<close>

definition lookup_handle :: "string \<Rightarrow> string \<Rightarrow> string" where
  "lookup_handle host acct =
     (if CHR ''@'' \<in> set acct then ''@'' @ acct else ''@'' @ acct @ ''@'' @ host)"

text \<open>The handler. \<open>skip_webfinger\<close> is false only when the parameter is the string
  \<^verbatim>\<open>"false"\<close>. Beside the new store and the response, the result lists the identifiers
  that were dereferenced on the network. The serializers are left out: the response is
  the account row.\<close>

definition get_lookup ::
  "remote \<Rightarrow> string \<Rightarrow> store \<Rightarrow> uuid \<Rightarrow> accountOwner option \<Rightarrow> string \<Rightarrow> bool
     \<Rightarrow> store \<times> string list \<times> (error + account)" where
  "get_lookup remote host db new_id token acct skip_webfinger =
     (case find (\<lambda>a. account_handle a = lookup_handle host acct) (accounts db) of
        Some found \<Rightarrow> (db, [], Inr found)
      | None \<Rightarrow>
          if skip_webfinger then (db, [], Inl RecordNotFound)
          else
            case remote acct (map_option owner_handle token) of
              Some (Actor a) \<Rightarrow>
                (case persistAccount db new_id a of
                   (db', Some loaded) \<Rightarrow> (db', [acct], Inr (loaded\<lparr>account_owner := None\<rparr>))
                 | (db', None) \<Rightarrow> (db', [acct], Inl RecordNotFound))
            | _ \<Rightarrow> (db, [acct], Inl RecordNotFound))"

text \<open>Following the claim's words: the same identifier resolved twice, the second time on
  the store the first has left. The result is the last store, the identifiers
  dereferenced by the two requests, and the second response.\<close>

definition lookup_twice ::
  "remote \<Rightarrow> string \<Rightarrow> store \<Rightarrow> uuid \<Rightarrow> uuid \<Rightarrow> accountOwner option \<Rightarrow> string \<Rightarrow> bool
     \<Rightarrow> store \<times> string list \<times> (error + account)" where
  "lookup_twice remote host db id1 id2 token acct skip_webfinger =
     (case get_lookup remote host db id1 token acct skip_webfinger of
        (db1, log1, r1) \<Rightarrow>
          (case get_lookup remote host db1 id2 token acct skip_webfinger of
             (db2, log2, r2) \<Rightarrow> (db2, log1 @ log2, r2)))"

section \<open>Following the cursor\<close>

text \<open>Following the claim's words: the client asks for the listing with a limit and no
  cursor, and asks again with the \<^verbatim>\<open>max_id\<close> of the \<^verbatim>\<open>Link\<close> header as long as one comes
  back. The result is the list of the pages, on a store that stays as it is. The loop
  ends because each request has fewer posts below its cursor than the one before.\<close>

definition below_cursor :: "store \<Rightarrow> statusesQuery \<Rightarrow> nat" where
  "below_cursor db q =
     (case q_max_id q of
        None \<Rightarrow> Suc (length (posts db))
      | Some c \<Rightarrow> length (filter (\<lambda>p. post_id p < c) (posts db)))"

function follow_cursors ::
  "store \<Rightarrow> timestamp \<Rightarrow> uuid \<Rightarrow> uuid \<Rightarrow> statusesQuery \<Rightarrow> post list list" where
  "follow_cursors db now viewer ident q =
     (case statuses_page db now viewer ident q of
        (page, None) \<Rightarrow> [page]
      | (page, Some c) \<Rightarrow> page # follow_cursors db now viewer ident (q\<lparr>q_max_id := Some c\<rparr>))"
  by pat_completeness auto

text \<open>The order of the ids agrees with the order of publication: ids are unique, and a
  post with a larger id was not published earlier.\<close>

definition ids_follow_publication :: "store \<Rightarrow> bool" where
  "ids_follow_publication db \<longleftrightarrow>
     distinct (map post_id (posts db)) \<and>
     list_all (\<lambda>p. list_all (\<lambda>p'. post_id p' \<le> post_id p \<or> post_published p \<le> post_published p')
                  (posts db)) (posts db)"

section \<open>Example stores\<close>

text \<open>Small stores on which the theorems below are run. Account 101 is the local viewer,
  account 102 the account whose statuses are listed.\<close>

definition the_viewer :: accountOwner where
  "the_viewer = \<lparr>owner_id = 101, owner_handle = ''viewer''\<rparr>"

definition local_account :: "uuid \<Rightarrow> string \<Rightarrow> account" where
  "local_account i h =
     \<lparr>account_id = i, account_iri = ''https://local.example/@'' @ h,
      account_handle = ''@'' @ h @ ''@local.example'', account_protected = False,
      account_owner = Some \<lparr>owner_id = i, owner_handle = h\<rparr>\<rparr>"

definition public_post :: "uuid \<Rightarrow> uuid \<Rightarrow> timestamp \<Rightarrow> post" where
  "public_post i a t =
     \<lparr>post_id = i, post_accountId = a, post_visibility = Public, post_replyTargetId = None,
      post_sharingId = None, post_published = t\<rparr>"

definition empty_store :: store where
  "empty_store =
     \<lparr>accounts = [local_account 101 ''viewer'', local_account 102 ''target'',
                  local_account 103 ''third''],
      follows = [], blocks = [], mutes = [], posts = [], mentions = [], pinnedPosts = [],
      media = []\<rparr>"

definition no_options :: statusesQuery where
  "no_options =
     \<lparr>q_max_id = None, q_min_id = None, q_limit = None, q_only_media = False,
      q_exclude_replies = False, q_pinned = False\<rparr>"

definition three_posts :: store where
  "three_posts =
     empty_store\<lparr>posts := [public_post 11 102 100, public_post 13 102 300, public_post 12 102 200]\<rparr>"

definition private_post :: "uuid \<Rightarrow> uuid \<Rightarrow> timestamp \<Rightarrow> post" where
  "private_post i a t = (public_post i a t)\<lparr>post_visibility := Private\<rparr>"

text \<open>The viewer has asked to follow the protected account 102, which has not answered:
  the follow row is there, its \<^verbatim>\<open>approved\<close> is null.\<close>

definition pending_follow_store :: store where
  "pending_follow_store =
     empty_store
       \<lparr>accounts := [local_account 101 ''viewer'',
                     (local_account 102 ''target'')\<lparr>account_protected := True\<rparr>,
                     local_account 103 ''third''],
        follows := [\<lparr>follow_followerId = 101, follow_followingId = 102, follow_approved = None\<rparr>],
        posts := [private_post 21 102 100]\<rparr>"

text \<open>Account 102 has blocked the viewer; the viewer has blocked account 103.\<close>

definition blocked_store :: store where
  "blocked_store =
     empty_store
       \<lparr>blocks := [\<lparr>block_accountId = 102, block_blockedAccountId = 101\<rparr>,
                   \<lparr>block_accountId = 101, block_blockedAccountId = 103\<rparr>],
        posts := [public_post 31 102 100, public_post 32 103 200, public_post 33 101 300]\<rparr>"

text \<open>The viewer mutes account 102 for one hour (an interval is in microseconds), from time
  1000. Account 103 has reposted post 41 of account 102.\<close>

definition repost :: "uuid \<Rightarrow> uuid \<Rightarrow> timestamp \<Rightarrow> uuid \<Rightarrow> post" where
  "repost i a t s = (public_post i a t)\<lparr>post_sharingId := Some s\<rparr>"

definition hour_mute :: mute where
  "hour_mute =
     \<lparr>mute_id = 51, mute_accountId = 101, mute_mutedAccountId = 102, mute_notifications = True,
      mute_duration = Some 3600000000, mute_created = 1000\<rparr>"

definition muted_store :: store where
  "muted_store =
     empty_store\<lparr>mutes := [hour_mute],
                 posts := [public_post 41 102 100, repost 42 103 200 41]\<rparr>"

text \<open>A network with one actor, reachable under its address.\<close>

definition alice :: actor where
  "alice =
     \<lparr>actor_iri = ''https://remote.example/users/alice'',
      actor_handle = ''@alice@remote.example'', actor_protected = False\<rparr>"

definition remote_alice :: remote where
  "remote_alice acct signer =
     (if acct = ''alice@remote.example'' then Some (Actor alice) else None)"

text \<open>Three posts of account 102 whose ids run against their publication times, as when
  older posts are fetched after newer ones.\<close>

definition skewed_posts :: store where
  "skewed_posts =
     empty_store\<lparr>posts := [public_post 61 102 300, public_post 62 102 200, public_post 63 102 100]\<rparr>"

text \<open>A federation that brings nothing new: the tables stay as they are.\<close>

definition fetch_nothing :: fetcher where
  "fetch_nothing db a n = (posts db, mentions db, media db)"

lemmas example_defs =
  the_viewer_def local_account_def public_post_def private_post_def repost_def
  empty_store_def
  no_options_def

lemmas statuses_defs =
  statuses_page_def postList_def matching_posts_def order_by_published_id_desc_def
  statuses_where_def query_limit_def visibility_clause_def sharing_clause_def
  option_clauses_def muted_accountIds_def blocked_accountIds_def blocking_accountIds_def
  following_rows_def mentioned_postIds_def muted_postIds_def pinned_postIds_def
  mute_in_force_def

section \<open>The page and its cursor\<close>

lemma matching_posts_ordered:
  "sorted (rev (map (\<lambda>p. (post_published p, post_id p)) (matching_posts db now viewer ident q)))"
  by (simp add: matching_posts_def order_by_published_id_desc_def rev_map [symmetric])

lemma postList_ordered:
  "sorted (rev (map (\<lambda>p. (post_published p, post_id p)) (postList db now viewer ident q)))"
proof -
  let ?rows = "matching_posts db now viewer ident q"
  let ?key = "\<lambda>p. (post_published p, post_id p)"
  have "rev (map ?key (take n ?rows)) = drop (length ?rows - n) (rev (map ?key ?rows))" for n
    by (simp add: rev_take rev_map drop_map)
  moreover have "sorted (drop n (rev (map ?key ?rows)))" for n
    using matching_posts_ordered by (rule sorted_wrt_drop)
  ultimately show ?thesis
    unfolding postList_def by presburger
qed

text \<open>
  C4. The listing query fetches the first \<open>limit + 1\<close> of the matching rows, ordered by
  \<open>(published, id)\<close> descending (the order on pairs is the lexicographic one). When more
  than \<open>limit\<close> rows come back, the body is the first \<open>limit\<close> of them and the cursor is
  the id of the row at index \<open>limit\<close>, the \<open>limit + 1\<close>-th; when at most \<open>limit\<close> rows
  come back, the body is all of them and there is no cursor.
\<close>

theorem statuses_page_limit_plus_one:
  "postList db now viewer ident q
     = take (query_limit q + 1) (matching_posts db now viewer ident q) \<and>
   sorted (rev (map (\<lambda>p. (post_published p, post_id p)) (postList db now viewer ident q))) \<and>
   (length (postList db now viewer ident q) > query_limit q \<longrightarrow>
      statuses_page db now viewer ident q
        = (take (query_limit q) (postList db now viewer ident q),
           Some (post_id (postList db now viewer ident q ! query_limit q)))) \<and>
   (length (postList db now viewer ident q) \<le> query_limit q \<longrightarrow>
      statuses_page db now viewer ident q = (postList db now viewer ident q, None))"
  by (simp add: postList_ordered statuses_page_def Let_def) (simp add: postList_def)

theorem statuses_page_limit_plus_one_witness:
  "length (postList three_posts 0 101 102 (no_options\<lparr>q_limit := Some 2\<rparr>)) > 2 \<and>
   map post_id (fst (statuses_page three_posts 0 101 102 (no_options\<lparr>q_limit := Some 2\<rparr>))) = [13, 12] \<and>
   snd (statuses_page three_posts 0 101 102 (no_options\<lparr>q_limit := Some 2\<rparr>)) = Some 11 \<and>
   length (postList three_posts 0 101 102 (no_options\<lparr>q_limit := Some 3\<rparr>)) \<le> 3 \<and>
   map post_id (fst (statuses_page three_posts 0 101 102 (no_options\<lparr>q_limit := Some 3\<rparr>))) = [13, 12, 11] \<and>
   snd (statuses_page three_posts 0 101 102 (no_options\<lparr>q_limit := Some 3\<rparr>)) = None"
proof -
  let ?q2 = "no_options\<lparr>q_limit := Some 2\<rparr>" and ?q3 = "no_options\<lparr>q_limit := Some 3\<rparr>"
  have rows2: "postList three_posts 0 101 102 ?q2 = [public_post 13 102 300, public_post 12 102 200, public_post 11 102 100]"
    by (simp add: statuses_defs example_defs three_posts_def)
  have rows3: "postList three_posts 0 101 102 ?q3 = [public_post 13 102 300, public_post 12 102 200, public_post 11 102 100]"
    by (simp add: statuses_defs example_defs three_posts_def)
  have lim2: "query_limit ?q2 = 2" and lim3: "query_limit ?q3 = 3"
    by (simp_all add: query_limit_def)
  have "length (postList three_posts 0 101 102 ?q2) > query_limit ?q2"
    by (simp add: rows2 lim2)
  with statuses_page_limit_plus_one [of three_posts 0 101 102 ?q2]
  have page2: "statuses_page three_posts 0 101 102 ?q2
        = (take (query_limit ?q2) (postList three_posts 0 101 102 ?q2),
           Some (post_id (postList three_posts 0 101 102 ?q2 ! query_limit ?q2)))"
    by blast
  have "length (postList three_posts 0 101 102 ?q3) \<le> query_limit ?q3"
    by (simp add: rows3 lim3)
  with statuses_page_limit_plus_one [of three_posts 0 101 102 ?q3]
  have page3: "statuses_page three_posts 0 101 102 ?q3 = (postList three_posts 0 101 102 ?q3, None)"
    by blast
  show ?thesis
    unfolding page2 page3 rows2 rows3 lim2 lim3 by (simp add: public_post_def)
qed

section \<open>What a listing holds\<close>

lemma statuses_page_posts:
  assumes "p \<in> set (fst (statuses_page db now viewer ident q))"
  shows "p \<in> set (posts db) \<and> statuses_where db now viewer ident (following_rows db viewer ident) q p"
proof -
  from assms have "p \<in> set (postList db now viewer ident q)"
    by (auto simp: statuses_page_def Let_def dest: in_set_takeD)
  then have "p \<in> set (matching_posts db now viewer ident q)"
    by (auto simp: postList_def dest: in_set_takeD)
  then show ?thesis
    by (simp add: matching_posts_def order_by_published_id_desc_def)
qed

lemma persistAccountPosts_relations:
  "follows (persistAccountPosts fetch db a n) = follows db"
  "blocks (persistAccountPosts fetch db a n) = blocks db"
  "mutes (persistAccountPosts fetch db a n) = mutes db"
  "accounts (persistAccountPosts fetch db a n) = accounts db"
  by (simp_all add: persistAccountPosts_def split: prod.splits)

lemma find_Some_holds: "find P xs = Some x \<Longrightarrow> P x \<and> x \<in> set xs"
  by (auto simp: find_Some_iff)

lemma statuses_listing_cases:
  assumes "statuses fetch_posts fetch db now ident token q = (db', Inr r)"
  obtains (short_circuit) "r = ([], None)" "db' = db"
    | (query) tok i where "token = Some tok" "ident = Some i"
        "follows db' = follows db" "blocks db' = blocks db" "mutes db' = mutes db"
        "r = statuses_page db' now (owner_id tok) i q"
        "\<not> list_ex (\<lambda>b. block_accountId b = i \<and> block_blockedAccountId b = owner_id tok) (blocks db)"
  using assms
  unfolding statuses_def Let_def
  by (auto split: option.splits if_splits simp: persistAccountPosts_relations list_ex_iff
        dest!: find_Some_holds)
  

subsection \<open>Private posts\<close>

text \<open>A private post of another account is listed only to a viewer with a follow row
  towards that account. The query \<^verbatim>\<open>following\<close> selects the row by its two ends and does
  not read \<^verbatim>\<open>approved\<close>.\<close>

lemma private_post_needs_follow_row:
  assumes "p \<in> set (response_posts (statuses fetch_posts fetch db now ident (Some tok) q))"
    and "post_visibility p = Private" and "post_accountId p \<noteq> owner_id tok"
  shows "\<exists>f \<in> set (follows db). follow_followerId f = owner_id tok \<and> follow_followingId f = post_accountId p"
proof -
  obtain db' r where s: "statuses fetch_posts fetch db now ident (Some tok) q = (db', r)"
    by (cases "statuses fetch_posts fetch db now ident (Some tok) q")
  with assms(1) obtain page nxt where r: "r = Inr (page, nxt)" and p: "p \<in> set page"
    by (auto simp: response_posts_def split: sum.splits prod.splits)
  from s [unfolded r] show ?thesis
  proof (cases rule: statuses_listing_cases)
    case short_circuit
    with p show ?thesis by simp
  next
    case (query tok' i)
    with p have "p \<in> set (fst (statuses_page db' now (owner_id tok) i q))"
      by (metis fst_conv option.inject)
    then have w: "statuses_where db' now (owner_id tok) i (following_rows db' (owner_id tok) i) q p"
      by (simp add: statuses_page_posts)
    then have "post_accountId p = i" "following_rows db' (owner_id tok) i \<noteq> []"
      using assms(2,3) by (auto simp: statuses_where_def visibility_clause_def)
    with query(3) show ?thesis
      by (auto simp: following_rows_def filter_empty_conv)
  qed
qed

text \<open>
  C1. A private post is to be listed only to its author and to viewers whose follow of the
  target is approved. The handler lists it to a viewer whose follow is pending: in
  \<open>pending_follow_store\<close> the only follow row, from the viewer 101 to account 102, has a
  null \<^verbatim>\<open>approved\<close>, and the listing of account 102 for viewer 101 holds the private
  post 21.
\<close>

theorem pending_follow_lists_private_post:
  "statuses fetch_posts fetch pending_follow_store now (Some 102) (Some the_viewer) no_options
     = (pending_follow_store, Inr ([private_post 21 102 100], None))"
  by (simp add: statuses_def statuses_defs pending_follow_store_def example_defs)

subsection \<open>Blocks\<close>

lemma blockAccount_row:
  "\<exists>b \<in> set (blocks (blockAccount db blocker blockee)).
     block_accountId b = owner_id blocker \<and> block_blockedAccountId b = account_id blockee"
  by (auto simp: blockAccount_def list_ex_iff)

lemma statuses_short_circuit:
  assumes "b \<in> set (blocks db)" and "owner_id tok = block_blockedAccountId b"
    and "list_ex (\<lambda>a. account_id a = block_accountId b) (accounts db)"
  shows "statuses fetch_posts fetch db now (Some (block_accountId b)) (Some tok) q = (db, Inr ([], None))"
proof -
  from assms(3) obtain acct where
    a: "find (\<lambda>a. account_id a = block_accountId b) (accounts db) = Some acct"
    by (cases "find (\<lambda>a. account_id a = block_accountId b) (accounts db)")
       (auto simp: find_None_iff list_ex_iff)
  then have i: "account_id acct = block_accountId b"
    by (auto dest: find_Some_holds)
  from assms(1,2) have "list_ex (\<lambda>r. block_blockedAccountId r = owner_id tok)
      (filter (\<lambda>r. block_accountId r = account_id acct \<and> block_blockedAccountId r = owner_id tok) (blocks db))"
    unfolding list_ex_iff i by auto
  with a show ?thesis
    by (simp add: statuses_def)
qed

text \<open>
  C2. In every store that holds the row \<open>Block(A,B)\<close> (the row that \<open>block(A,B)\<close> upserts,
  until an unblock deletes it), whatever the request and whatever the backfill brings:
  a listing computed for viewer \<open>A\<close> holds no post of \<open>B\<close>, a listing computed for viewer
  \<open>B\<close> holds no post of \<open>A\<close>, of any visibility; and the listing of \<open>A\<close>'s statuses for
  viewer \<open>B\<close> is empty: when the account \<open>A\<close> exists, the handler answers the empty list
  with no cursor before it fetches or queries anything.
\<close>

theorem block_hides_posts_both_ways:
  assumes "b \<in> set (blocks db)"
  shows "(\<forall>p \<in> set (response_posts (statuses fetch_posts fetch db now ident (Some tok) q)).
            (owner_id tok = block_accountId b \<longrightarrow> post_accountId p \<noteq> block_blockedAccountId b) \<and>
            (owner_id tok = block_blockedAccountId b \<longrightarrow> post_accountId p \<noteq> block_accountId b)) \<and>
         (owner_id tok = block_blockedAccountId b \<and> ident = Some (block_accountId b) \<longrightarrow>
            response_posts (statuses fetch_posts fetch db now ident (Some tok) q) = []) \<and>
         (owner_id tok = block_blockedAccountId b \<and> ident = Some (block_accountId b) \<and>
          list_ex (\<lambda>a. account_id a = block_accountId b) (accounts db) \<longrightarrow>
            statuses fetch_posts fetch db now ident (Some tok) q = (db, Inr ([], None)))"
proof -
  obtain db' r where s: "statuses fetch_posts fetch db now ident (Some tok) q = (db', r)"
    by (cases "statuses fetch_posts fetch db now ident (Some tok) q")
  have hidden: "(owner_id tok = block_accountId b \<longrightarrow> post_accountId p \<noteq> block_blockedAccountId b) \<and>
            (owner_id tok = block_blockedAccountId b \<longrightarrow> post_accountId p \<noteq> block_accountId b)"
    if p: "p \<in> set page" and r: "r = Inr (page, nxt)" for p page nxt
    using s [unfolded r]
  proof (cases rule: statuses_listing_cases)
    case short_circuit
    with p show ?thesis by simp
  next
    case (query tok' i)
    with p have "p \<in> set (fst (statuses_page db' now (owner_id tok) i q))"
      by (metis fst_conv option.inject)
    then have "statuses_where db' now (owner_id tok) i (following_rows db' (owner_id tok) i) q p"
      by (simp add: statuses_page_posts)
    then have "post_accountId p \<notin> set (blocked_accountIds db' (owner_id tok))"
      and "post_accountId p \<notin> set (blocking_accountIds db' (owner_id tok))"
      by (auto simp: statuses_where_def)
    with assms query(4) show ?thesis
      by (force simp: blocked_accountIds_def blocking_accountIds_def)
  qed
  have empty: "response_posts (statuses fetch_posts fetch db now ident (Some tok) q) = []"
    if "owner_id tok = block_blockedAccountId b" "ident = Some (block_accountId b)"
  proof (cases r)
    case (Inl e)
    with s show ?thesis by (simp add: response_posts_def)
  next
    case (Inr pn)
    with s have "statuses fetch_posts fetch db now ident (Some tok) q = (db', Inr pn)" by simp
    then show ?thesis
    proof (cases rule: statuses_listing_cases)
      case short_circuit
      with s Inr show ?thesis by (simp add: response_posts_def)
    next
      case (query tok' i)
      with that assms show ?thesis
        by (auto simp: list_ex_iff)
    qed
  qed
  have short: "statuses fetch_posts fetch db now ident (Some tok) q = (db, Inr ([], None))"
    if "owner_id tok = block_blockedAccountId b" "ident = Some (block_accountId b)"
      "list_ex (\<lambda>a. account_id a = block_accountId b) (accounts db)"
    using statuses_short_circuit [OF assms that(1,3)] that(2) by simp
  have "\<forall>p \<in> set (response_posts (statuses fetch_posts fetch db now ident (Some tok) q)).
            (owner_id tok = block_accountId b \<longrightarrow> post_accountId p \<noteq> block_blockedAccountId b) \<and>
            (owner_id tok = block_blockedAccountId b \<longrightarrow> post_accountId p \<noteq> block_accountId b)"
    using hidden s by (auto simp: response_posts_def split: sum.splits prod.splits)
  with empty short show ?thesis
    by blast
qed


theorem block_hides_posts_both_ways_witness:
  "\<lparr>block_accountId = 102, block_blockedAccountId = 101\<rparr> \<in> set (blocks blocked_store) \<and>
   statuses 20 fetch_nothing blocked_store 0 (Some 102) (Some the_viewer) no_options
     = (blocked_store, Inr ([], None)) \<and>
   \<lparr>block_accountId = 101, block_blockedAccountId = 103\<rparr> \<in> set (blocks blocked_store) \<and>
   response_posts (statuses 20 fetch_nothing blocked_store 0 (Some 101) (Some the_viewer) no_options)
     = [public_post 33 101 300] \<and>
   post_accountId (public_post 33 101 300) \<noteq> 103"
proof -
  have b1: "\<lparr>block_accountId = 102, block_blockedAccountId = 101\<rparr> \<in> set (blocks blocked_store)"
    and b2: "\<lparr>block_accountId = 101, block_blockedAccountId = 103\<rparr> \<in> set (blocks blocked_store)"
    by (simp_all add: blocked_store_def)
  have own: "response_posts (statuses 20 fetch_nothing blocked_store 0 (Some 101) (Some the_viewer) no_options)
     = [public_post 33 101 300]"
    by (simp add: response_posts_def statuses_def statuses_defs blocked_store_def example_defs)
  from block_hides_posts_both_ways [OF b1, where tok = the_viewer and ident = "Some 102"
         and fetch_posts = 20 and fetch = fetch_nothing and now = 0 and q = no_options]
  have "statuses 20 fetch_nothing blocked_store 0 (Some 102) (Some the_viewer) no_options
     = (blocked_store, Inr ([], None))"
    by (simp add: the_viewer_def blocked_store_def empty_store_def local_account_def)
  moreover
  from block_hides_posts_both_ways [OF b2, where tok = the_viewer and ident = "Some 101"
         and fetch_posts = 20 and fetch = fetch_nothing and now = 0 and q = no_options]
  have "post_accountId (public_post 33 101 300) \<noteq> 103"
    unfolding own by (simp add: the_viewer_def)
  ultimately show ?thesis
    using b1 b2 own by simp
qed

subsection \<open>Mutes\<close>

lemma matching_posts_iff:
  "p \<in> set (matching_posts db now viewer ident q) \<longleftrightarrow>
     p \<in> set (posts db) \<and> statuses_where db now viewer ident (following_rows db viewer ident) q p"
  by (simp add: matching_posts_def order_by_published_id_desc_def)

lemma muted_accountIds_iff:
  "a \<in> set (muted_accountIds db now viewer) \<longleftrightarrow>
     (\<exists>m \<in> set (mutes db). mute_accountId m = viewer \<and> mute_mutedAccountId m = a \<and> mute_in_force now m)"
  by (auto simp: muted_accountIds_def)

lemma muted_postIds_iff:
  "s \<in> set (muted_postIds db now viewer) \<longleftrightarrow>
     (\<exists>orig \<in> set (posts db). post_id orig = s \<and> post_accountId orig \<in> set (muted_accountIds db now viewer))"
proof -
  have "s \<in> set (muted_postIds db now viewer) \<longleftrightarrow>
     (\<exists>orig \<in> set (posts db). post_id orig = s \<and>
        (\<exists>m \<in> set (mutes db). mute_mutedAccountId m = post_accountId orig \<and>
           mute_accountId m = viewer \<and> mute_in_force now m))"
    unfolding muted_postIds_def by fastforce
  then show ?thesis
    unfolding muted_accountIds_iff by metis
qed

lemma mute_in_force_iff:
  "mute_in_force now m \<longleftrightarrow> mute_duration m = None \<or> now < mute_created m + the (mute_duration m)"
  by (simp add: mute_in_force_def split: option.splits)

lemma unmuted_where_mutes [simp]:
  "unmuted_where (db\<lparr>mutes := ms\<rparr>) viewer ident q p = unmuted_where db viewer ident q p"
  by (simp add: unmuted_where_def visibility_clause_def following_rows_def blocked_accountIds_def
      blocking_accountIds_def option_clauses_def mentioned_postIds_def pinned_postIds_def)

lemma statuses_where_split:
  "statuses_where db now viewer ident (following_rows db viewer ident) q p \<longleftrightarrow>
     unmuted_where db viewer ident q p \<and>
     post_accountId p \<notin> set (muted_accountIds db now viewer) \<and>
     sharing_clause db now viewer p"
  by (auto simp: statuses_where_def unmuted_where_def)

lemma muted_accountIds_removeAll:
  assumes "mute_accountId m = viewer"
  shows "a \<in> set (muted_accountIds db now viewer) \<longleftrightarrow>
     a \<in> set (muted_accountIds (db\<lparr>mutes := removeAll m (mutes db)\<rparr>) now viewer) \<or>
     (m \<in> set (mutes db) \<and> mute_mutedAccountId m = a \<and> mute_in_force now m)"
  using assms by (auto simp: muted_accountIds_iff)

text \<open>
  C5. Let \<open>m\<close> be a mute row of the viewer on the listed account, and \<open>p\<close> a post that the
  listing holds once \<open>m\<close> is taken out of the store. Evaluated at time \<open>now\<close>, the listing
  of the store with \<open>m\<close> holds \<open>p\<close> exactly when \<open>m\<close> is not active, where active is: the
  duration is null, or \<open>now < created + duration\<close>. So a mute of null duration suppresses
  at every time, and a mute of duration \<open>D\<close> suppresses no longer once the clock has reached
  \<open>created + D\<close>.
\<close>

theorem mute_suppresses_until_expiry:
  assumes "m \<in> set (mutes db)" and "mute_accountId m = viewer" and "mute_mutedAccountId m = ident"
    and "p \<in> set (matching_posts (db\<lparr>mutes := removeAll m (mutes db)\<rparr>) now viewer ident q)"
  shows "p \<in> set (matching_posts db now viewer ident q) \<longleftrightarrow>
           \<not> (mute_duration m = None \<or> now < mute_created m + the (mute_duration m))"
proof -
  let ?db = "db\<lparr>mutes := removeAll m (mutes db)\<rparr>"
  from assms(4) have p: "p \<in> set (posts db)" "unmuted_where db viewer ident q p"
    and a: "post_accountId p \<notin> set (muted_accountIds ?db now viewer)"
    and s: "sharing_clause ?db now viewer p"
    by (simp_all add: matching_posts_iff statuses_where_split)
  from p(2) have author: "post_accountId p = ident" by (simp add: unmuted_where_def)
  show ?thesis
  proof (cases "mute_in_force now m")
    case True
    with assms(1-3) author have "post_accountId p \<in> set (muted_accountIds db now viewer)"
      by (auto simp: muted_accountIds_iff)
    with True show ?thesis
      by (simp add: matching_posts_iff statuses_where_split mute_in_force_iff)
  next
    case False
    then have same: "x \<in> set (muted_accountIds db now viewer) \<longleftrightarrow> x \<in> set (muted_accountIds ?db now viewer)" for x
      using muted_accountIds_removeAll [OF assms(2), of x db now] by auto
    then have "sharing_clause db now viewer p"
      using s by (auto simp: sharing_clause_def muted_postIds_iff split: option.splits)
    with same a p False show ?thesis
      by (simp add: matching_posts_iff statuses_where_split mute_in_force_iff)
  qed
qed

theorem mute_suppresses_until_expiry_witness:
  "hour_mute \<in> set (mutes muted_store) \<and>
   public_post 41 102 100
     \<in> set (matching_posts (muted_store\<lparr>mutes := removeAll hour_mute (mutes muted_store)\<rparr>) 2000 101 102 no_options) \<and>
   public_post 41 102 100 \<notin> set (matching_posts muted_store 2000 101 102 no_options) \<and>
   public_post 41 102 100 \<in> set (matching_posts muted_store 3600001000 101 102 no_options)"
proof -
  let ?db = "muted_store\<lparr>mutes := removeAll hour_mute (mutes muted_store)\<rparr>"
  have m: "hour_mute \<in> set (mutes muted_store)" "mute_accountId hour_mute = 101"
    "mute_mutedAccountId hour_mute = 102"
    by (simp_all add: muted_store_def hour_mute_def)
  have e: "public_post 41 102 100 \<in> set (matching_posts ?db now 101 102 no_options)" for now
    by (simp add: statuses_defs muted_store_def example_defs)
  from mute_suppresses_until_expiry [OF m e, of 2000]
  have early: "public_post 41 102 100 \<notin> set (matching_posts muted_store 2000 101 102 no_options)"
    by (simp add: hour_mute_def)
  from mute_suppresses_until_expiry [OF m e, of 3600001000]
  have late: "public_post 41 102 100 \<in> set (matching_posts muted_store 3600001000 101 102 no_options)"
    by (simp add: hour_mute_def)
  from m(1) e early late show ?thesis by simp
qed

lemma post_unmute_store:
  "fst (post_unmute db (Some a) (Some tok)) =
     db\<lparr>mutes := filter (\<lambda>m. \<not> (mute_accountId m = owner_id tok \<and> mute_mutedAccountId m = a)) (mutes db)\<rparr>"
  by (simp add: post_unmute_def Let_def)

lemma muted_accountIds_unmute:
  "x \<in> set (muted_accountIds (fst (post_unmute db (Some a) (Some tok))) now (owner_id tok)) \<longleftrightarrow>
     x \<noteq> a \<and> x \<in> set (muted_accountIds db now (owner_id tok))"
  by (auto simp: post_unmute_store muted_accountIds_iff)

lemma matching_posts_no_mutes:
  "p \<in> set (matching_posts (db\<lparr>mutes := []\<rparr>) now viewer ident q) \<longleftrightarrow>
     p \<in> set (posts db) \<and> unmuted_where db viewer ident q p"
  by (simp add: matching_posts_iff statuses_where_split muted_accountIds_def sharing_clause_def
      muted_postIds_def split: option.splits)

text \<open>
  C6. A repost \<open>p\<close> (its \<^verbatim>\<open>sharingId\<close> is set) of a post \<open>orig\<close> is in no listing for a
  viewer who actively mutes the author of \<open>orig\<close>, whether or not the viewer mutes the
  author of \<open>p\<close>. After \<^verbatim>\<open>POST /a/unmute\<close> both come back: an original post of \<open>a\<close>, and a
  repost of a post of \<open>a\<close> by an author the viewer does not mute, are listed exactly when
  they are listed in the store without any mute row.
\<close>

theorem repost_of_muted_author_hidden:
  "(post_sharingId p = Some s \<and> orig \<in> set (posts db) \<and> post_id orig = s \<and>
    m \<in> set (mutes db) \<and> mute_accountId m = viewer \<and> mute_mutedAccountId m = post_accountId orig \<and>
    (mute_duration m = None \<or> now < mute_created m + the (mute_duration m))
      \<longrightarrow> p \<notin> set (matching_posts db now viewer ident q)) \<and>
   (post_accountId p = a \<and> post_sharingId p = None
      \<longrightarrow> (p \<in> set (matching_posts (fst (post_unmute db (Some a) (Some tok))) now (owner_id tok) ident q)
            \<longleftrightarrow> p \<in> set (matching_posts (db\<lparr>mutes := []\<rparr>) now (owner_id tok) ident q))) \<and>
   (post_sharingId p = Some s \<and> (\<forall>orig \<in> set (posts db). post_id orig = s \<longrightarrow> post_accountId orig = a) \<and>
    post_accountId p \<notin> set (muted_accountIds db now (owner_id tok))
      \<longrightarrow> (p \<in> set (matching_posts (fst (post_unmute db (Some a) (Some tok))) now (owner_id tok) ident q)
            \<longleftrightarrow> p \<in> set (matching_posts (db\<lparr>mutes := []\<rparr>) now (owner_id tok) ident q)))"
proof (intro conjI impI)
  assume h: "post_sharingId p = Some s \<and> orig \<in> set (posts db) \<and> post_id orig = s \<and>
    m \<in> set (mutes db) \<and> mute_accountId m = viewer \<and> mute_mutedAccountId m = post_accountId orig \<and>
    (mute_duration m = None \<or> now < mute_created m + the (mute_duration m))"
  then have "post_accountId orig \<in> set (muted_accountIds db now viewer)"
    unfolding muted_accountIds_iff mute_in_force_iff by blast
  with h have "s \<in> set (muted_postIds db now viewer)"
    unfolding muted_postIds_iff by blast
  with h have "\<not> sharing_clause db now viewer p"
    by (simp add: sharing_clause_def)
  then show "p \<notin> set (matching_posts db now viewer ident q)"
    by (simp add: matching_posts_iff statuses_where_split)
next
  let ?db = "fst (post_unmute db (Some a) (Some tok))"
  have rest: "p \<in> set (posts ?db) \<and> unmuted_where ?db (owner_id tok) ident q p \<longleftrightarrow>
      p \<in> set (posts db) \<and> unmuted_where db (owner_id tok) ident q p"
    by (simp add: post_unmute_store)
  {
    assume h: "post_accountId p = a \<and> post_sharingId p = None"
    then have "post_accountId p \<notin> set (muted_accountIds ?db now (owner_id tok))"
      by (simp add: muted_accountIds_unmute)
    moreover from h have "sharing_clause ?db now (owner_id tok) p"
      by (simp add: sharing_clause_def)
    ultimately show "p \<in> set (matching_posts ?db now (owner_id tok) ident q)
            \<longleftrightarrow> p \<in> set (matching_posts (db\<lparr>mutes := []\<rparr>) now (owner_id tok) ident q)"
      using rest by (simp add: matching_posts_iff [of p ?db] statuses_where_split matching_posts_no_mutes)
  }
  {
    assume h: "post_sharingId p = Some s \<and> (\<forall>orig \<in> set (posts db). post_id orig = s \<longrightarrow> post_accountId orig = a) \<and>
      post_accountId p \<notin> set (muted_accountIds db now (owner_id tok))"
    then have "post_accountId p \<notin> set (muted_accountIds ?db now (owner_id tok))"
      by (simp add: muted_accountIds_unmute)
    moreover have "posts ?db = posts db"
      by (simp add: post_unmute_store)
    with h have "s \<notin> set (muted_postIds ?db now (owner_id tok))"
      unfolding muted_postIds_iff muted_accountIds_unmute by auto
    with h have "sharing_clause ?db now (owner_id tok) p"
      by (simp add: sharing_clause_def)
    ultimately show "p \<in> set (matching_posts ?db now (owner_id tok) ident q)
            \<longleftrightarrow> p \<in> set (matching_posts (db\<lparr>mutes := []\<rparr>) now (owner_id tok) ident q)"
      using rest by (simp add: matching_posts_iff [of p ?db] statuses_where_split matching_posts_no_mutes)
  }
qed

theorem repost_of_muted_author_hidden_witness:
  "repost 42 103 200 41 \<notin> set (matching_posts muted_store 2000 101 103 no_options) \<and>
   repost 42 103 200 41
     \<in> set (matching_posts (fst (post_unmute muted_store (Some 102) (Some the_viewer))) 2000 101 103 no_options) \<and>
   public_post 41 102 100
     \<in> set (matching_posts (fst (post_unmute muted_store (Some 102) (Some the_viewer))) 2000 101 102 no_options)"
proof -
  note inst = repost_of_muted_author_hidden [where db = muted_store and m = hour_mute
      and viewer = 101 and now = 2000 and q = no_options and a = 102 and tok = the_viewer
      and s = 41 and orig = "public_post 41 102 100"]
  have v: "owner_id the_viewer = 101"
    by (simp add: the_viewer_def)
  have unmuted: "repost 42 103 200 41 \<in> set (matching_posts (muted_store\<lparr>mutes := []\<rparr>) 2000 101 103 no_options)"
    "public_post 41 102 100 \<in> set (matching_posts (muted_store\<lparr>mutes := []\<rparr>) 2000 101 102 no_options)"
    by (simp_all add: statuses_defs muted_store_def example_defs)
  have hidden: "repost 42 103 200 41 \<notin> set (matching_posts muted_store 2000 101 103 no_options)"
    using inst [where p = "repost 42 103 200 41" and ident = 103]
    by (simp add: muted_store_def hour_mute_def example_defs)
  have "post_accountId (repost 42 103 200 41) \<notin> set (muted_accountIds muted_store 2000 101)"
    by (simp add: muted_accountIds_def muted_store_def hour_mute_def example_defs)
  then have shown_again: "repost 42 103 200 41
     \<in> set (matching_posts (fst (post_unmute muted_store (Some 102) (Some the_viewer))) 2000 101 103 no_options)"
    using inst [where p = "repost 42 103 200 41" and ident = 103] unmuted(1)
    unfolding v by (simp add: muted_store_def example_defs)
  have orig: "public_post 41 102 100
     \<in> set (matching_posts (fst (post_unmute muted_store (Some 102) (Some the_viewer))) 2000 101 102 no_options)"
    using inst [where p = "public_post 41 102 100" and ident = 102] unmuted(2)
    unfolding v by (simp add: public_post_def)
  from hidden shown_again orig show ?thesis by simp
qed

section \<open>The mute handler\<close>

subsection \<open>The duration text\<close>

lemma seconds_of_day_fields:
  fixes n :: nat
  shows "(n mod 86400) div 3600 = (n div 3600) mod 24"
    and "(n mod 86400) div 60 mod 60 = (n div 60) mod 60"
    and "(n mod 86400) mod 60 = n mod 60"
proof -
  have "n mod (3600 * 24) = 3600 * (n div 3600 mod 24) + n mod 3600"
    by (rule mod_mult2_eq)
  then show "(n mod 86400) div 3600 = (n div 3600) mod 24"
    by simp
  have "n mod (60 * 1440) = 60 * (n div 60 mod 1440) + n mod 60"
    by (rule mod_mult2_eq)
  then have "n mod 86400 div 60 = (n div 60) mod 1440"
    by simp
  then show "(n mod 86400) div 60 mod 60 = (n div 60) mod 60"
    by (simp add: mod_mod_cancel)
  show "(n mod 86400) mod 60 = n mod 60"
    by (simp add: mod_mod_cancel)
qed

lemma time_fields_of_seconds:
  fixes d :: int
  assumes "0 \<le> d"
  shows "nat (d div 3600 mod 24) = nat (d mod 86400) div 3600"
    and "nat (d div 60 mod 60) = nat (d mod 86400) div 60 mod 60"
    and "nat (d mod 60) = nat (d mod 86400) mod 60"
proof -
  from assms have "nat (d div 3600 mod 24) = nat d div 3600 mod 24"
    and "nat (d div 60 mod 60) = nat d div 60 mod 60"
    and "nat (d mod 60) = nat d mod 60"
    and "nat (d mod 86400) = nat d mod 86400"
    by (simp_all add: nat_div_distrib nat_mod_distrib)
  then show "nat (d div 3600 mod 24) = nat (d mod 86400) div 3600"
    and "nat (d div 60 mod 60) = nat (d mod 86400) div 60 mod 60"
    and "nat (d mod 60) = nat (d mod 86400) mod 60"
    by (simp_all only: seconds_of_day_fields)
qed

text \<open>The whole milliseconds of \<open>d\<close> seconds hold the whole seconds of \<open>d\<close>.\<close>

lemma whole_seconds_of_milliseconds:
  fixes d :: real
  shows "\<lfloor>d * 1000\<rfloor> div 1000 = \<lfloor>d\<rfloor>"
    and "\<lfloor>d * 1000\<rfloor> div 60000 = \<lfloor>d\<rfloor> div 60"
    and "\<lfloor>d * 1000\<rfloor> div 3600000 = \<lfloor>d\<rfloor> div 3600"
proof -
  have "\<lfloor>d * 1000 / real_of_int 1000\<rfloor> = \<lfloor>d * 1000\<rfloor> div 1000"
    by (rule floor_divide_real_eq_div) simp
  then show s: "\<lfloor>d * 1000\<rfloor> div 1000 = \<lfloor>d\<rfloor>"
    by simp
  have "\<lfloor>d * 1000\<rfloor> div (1000 * 60) = \<lfloor>d * 1000\<rfloor> div 1000 div 60"
    by (rule zdiv_zmult2_eq) simp
  then show "\<lfloor>d * 1000\<rfloor> div 60000 = \<lfloor>d\<rfloor> div 60"
    by (simp add: s)
  have "\<lfloor>d * 1000\<rfloor> div (1000 * 3600) = \<lfloor>d * 1000\<rfloor> div 1000 div 3600"
    by (rule zdiv_zmult2_eq) simp
  then show "\<lfloor>d * 1000\<rfloor> div 3600000 = \<lfloor>d\<rfloor> div 3600"
    by (simp add: s)
qed

lemma durationStr_ranges:
  "(d \<le> 0 \<longrightarrow> durationStr d = Inr None) \<and>
   (0 < d \<and> d \<le> 8640000000000 \<longrightarrow>
      durationStr d = Inr (Some (hh_mm_ss (nat (\<lfloor>d\<rfloor> mod 86400))))) \<and>
   (8640000000000 < d \<longrightarrow> durationStr d = Inl UncaughtRangeError)"
proof (intro conjI impI)
  show "durationStr d = Inr None" if "d \<le> 0"
    using that by (simp add: durationStr_def)
  show "durationStr d = Inl UncaughtRangeError" if "8640000000000 < d"
    using that by (simp add: durationStr_def toISOString_time_def)
  show "durationStr d = Inr (Some (hh_mm_ss (nat (\<lfloor>d\<rfloor> mod 86400))))"
    if "0 < d \<and> d \<le> 8640000000000"
  proof -
    from that have "0 \<le> \<lfloor>d\<rfloor>" by simp
    note f = time_fields_of_seconds [OF this]
    from that have "durationStr d = Inr (Some (
        two_digits (nat (\<lfloor>d * 1000\<rfloor> div 3600000 mod 24)) @ '':'' @
        two_digits (nat (\<lfloor>d * 1000\<rfloor> div 60000 mod 60)) @ '':'' @
        two_digits (nat (\<lfloor>d * 1000\<rfloor> div 1000 mod 60))))"
      by (simp add: durationStr_def toISOString_time_def Let_def)
    then show ?thesis
      unfolding whole_seconds_of_milliseconds hh_mm_ss_def f .
  qed
qed

lemma digit_of_digit:
  assumes "k < 10"
  shows "digit_of (''0123456789'' ! k) = int k"
proof -
  from assms have "k = 0 \<or> k = 1 \<or> k = 2 \<or> k = 3 \<or> k = 4 \<or> k = 5 \<or> k = 6 \<or> k = 7 \<or> k = 8 \<or> k = 9"
    by arith
  then show ?thesis
    by (elim disjE) (simp_all add: digit_of_def)
qed

lemma two_digits_value:
  assumes "n < 100"
  shows "length (two_digits n) = 2"
    and "10 * digit_of (two_digits n ! 0) + digit_of (two_digits n ! 1) = int n"
proof -
  from assms have "n div 10 < 10" "n mod 10 < 10" by simp_all
  moreover have "10 * int (n div 10) + int (n mod 10) = int n"
    by arith
  ultimately show "10 * digit_of (two_digits n ! 0) + digit_of (two_digits n ! 1) = int n"
    by (simp add: two_digits_def digit_of_digit)
  show "length (two_digits n) = 2"
    by (simp add: two_digits_def)
qed

lemma interval_of_hh_mm_ss:
  assumes "s < 86400"
  shows "interval_of_text (hh_mm_ss s) = int s * 1000000"
proof -
  let ?h = "s div 3600" and ?m = "s div 60 mod 60" and ?s = "s mod 60"
  from assms have b: "?h < 100" "?m < 100" "?s < 100" by simp_all
  note v = two_digits_value [OF b(1)] two_digits_value [OF b(2)] two_digits_value [OF b(3)]
  have t: "hh_mm_ss s = two_digits ?h @ CHR '':'' # two_digits ?m @ CHR '':'' # two_digits ?s"
    by (simp add: hh_mm_ss_def)
  have n: "hh_mm_ss s ! 0 = two_digits ?h ! 0" "hh_mm_ss s ! 1 = two_digits ?h ! 1"
    "hh_mm_ss s ! 3 = two_digits ?m ! 0" "hh_mm_ss s ! 4 = two_digits ?m ! 1"
    "hh_mm_ss s ! 6 = two_digits ?s ! 0" "hh_mm_ss s ! 7 = two_digits ?s ! 1"
    "length (hh_mm_ss s) = 8"
    unfolding t by (simp_all add: two_digits_def)
  have "interval_of_text (hh_mm_ss s) = ((int ?h * 60 + int ?m) * 60 + int ?s) * 1000000"
    unfolding interval_of_text_def n using v by simp
  also have "(int ?h * 60 + int ?m) * 60 + int ?s = int ((?h * 60 + ?m) * 60 + ?s)"
    by simp
  also have "(?h * 60 + ?m) * 60 + ?s = s"
  proof -
    define a b c e where "a = s div 60" and "b = s div 3600" and "c = s div 60 mod 60"
      and "e = s mod 60"
    have "a = 60 * (a div 60) + a mod 60" by simp
    moreover have "a div 60 = b" by (simp add: a_def b_def div_mult2_eq [symmetric])
    moreover have "a mod 60 = c" by (simp add: a_def c_def)
    ultimately have "a = 60 * b + c" by simp
    moreover have "s = 60 * a + e" by (simp add: a_def e_def)
    ultimately have "(b * 60 + c) * 60 + e = s" by simp
    then show ?thesis by (simp add: b_def c_def e_def)
  qed
  finally show ?thesis .
qed

subsection \<open>What the handler stores\<close>

lemma upsert_mute_durations:
  "set (map mute_duration (filter (\<lambda>m. mute_pair m = mute_pair new) (upsert_mute rows new now)))
     = {mute_duration new}"
proof (cases "list_ex (\<lambda>m. mute_pair m = mute_pair new) rows")
  case True
  let ?g = "\<lambda>m. m\<lparr>mute_notifications := mute_notifications new,
                    mute_duration := mute_duration new, mute_created := now\<rparr>"
  have f: "filter (\<lambda>x. mute_pair x = k) (map (\<lambda>m. if mute_pair m = k then ?g m else m) xs)
        = map ?g (filter (\<lambda>x. mute_pair x = k) xs)" for k xs
    by (induction xs) (auto simp: mute_pair_def)
  from True have "filter (\<lambda>m. mute_pair m = mute_pair new) rows \<noteq> []"
    by (auto simp: list_ex_iff filter_empty_conv)
  then have "set (map mute_duration (map ?g (filter (\<lambda>m. mute_pair m = mute_pair new) rows)))
      = {mute_duration new}"
    by (cases "filter (\<lambda>m. mute_pair m = mute_pair new) rows") auto
  with True show ?thesis
    by (simp add: upsert_mute_def f)
next
  case False
  then have "filter (\<lambda>m. mute_pair m = mute_pair new) rows = []"
    by (auto simp: list_ex_iff filter_empty_conv)
  with False show ?thesis
    by (simp add: upsert_mute_def)
qed

lemma post_mute_rows:
  assumes "find (\<lambda>a. account_id a = i) (accounts db) = Some acct"
    and "durationStr d = Inr text"
  shows "mutes (fst (post_mute db now new_id (Some i) (Some owner) notifications d))
     = upsert_mute (mutes db)
         \<lparr>mute_id = new_id, mute_accountId = owner_id owner, mute_mutedAccountId = i,
          mute_notifications = notifications,
          mute_duration = map_option interval_of_text text, mute_created = now\<rparr> now"
proof -
  from assms(1) have "account_id acct = i"
    by (auto dest: find_Some_holds)
  with assms show ?thesis
    by (simp add: post_mute_def Let_def)
qed

lemma post_mute_stored_duration:
  assumes "find (\<lambda>a. account_id a = i) (accounts db) = Some acct"
    and "durationStr d = Inr text"
  shows "set (map mute_duration
           (mute_rows (fst (post_mute db now new_id (Some i) (Some owner) notifications d))
              (owner_id owner) i))
         = {map_option interval_of_text text}"
  using upsert_mute_durations [of
      "\<lparr>mute_id = new_id, mute_accountId = owner_id owner, mute_mutedAccountId = i,
        mute_notifications = notifications,
        mute_duration = map_option interval_of_text text, mute_created = now\<rparr>" "mutes db" now]
  unfolding mute_rows_def post_mute_rows [OF assms] by (simp add: mute_pair_def)

lemma post_mute_out_of_range:
  fixes d :: real
  assumes "8640000000000 < d"
  shows "fst (post_mute db now new_id ident token notifications d) = db"
    and "find (\<lambda>a. account_id a = i) (accounts db) = Some acct \<Longrightarrow>
         post_mute db now new_id (Some i) (Some owner) notifications d = (db, Inl UncaughtRangeError)"
proof -
  from assms have e: "durationStr d = Inl UncaughtRangeError"
    by (simp add: durationStr_def toISOString_time_def)
  then show "fst (post_mute db now new_id ident token notifications d) = db"
    by (simp add: post_mute_def split: option.splits)
  show "post_mute db now new_id (Some i) (Some owner) notifications d = (db, Inl UncaughtRangeError)"
    if "find (\<lambda>a. account_id a = i) (accounts db) = Some acct"
    using that e by (simp add: post_mute_def)
qed

text \<open>
  C8, as amended. Let the account to mute exist. A requested duration of 0 seconds or less
  gives a null duration, and the rows of the pair (owner, muted account) hold a null
  duration after the request. A positive duration of at most 8640000000000 seconds,
  whole or not, gives the text \<open>HH:MM:SS\<close> of its whole seconds modulo 86400, and the rows
  of the pair hold that many seconds: the whole days are lost, and 86400 seconds are
  stored as \<open>00:00:00\<close>. A longer duration gives no text: its milliseconds are beyond
  the range of a \<^verbatim>\<open>Date\<close>, \<^verbatim>\<open>toISOString\<close> throws, the handler ends in the exception, and
  the store is as it was before the request.
\<close>

theorem mute_duration_time_of_day:
  fixes d :: real
  assumes "find (\<lambda>a. account_id a = i) (accounts db) = Some acct"
  shows
  "(d \<le> 0 \<longrightarrow>
      durationStr d = Inr None \<and>
      set (map mute_duration
        (mute_rows (fst (post_mute db now new_id (Some i) (Some owner) notifications d))
           (owner_id owner) i)) = {None}) \<and>
   (0 < d \<and> d \<le> 8640000000000 \<longrightarrow>
      durationStr d = Inr (Some (hh_mm_ss (nat (\<lfloor>d\<rfloor> mod 86400)))) \<and>
      set (map mute_duration
        (mute_rows (fst (post_mute db now new_id (Some i) (Some owner) notifications d))
           (owner_id owner) i)) = {Some ((\<lfloor>d\<rfloor> mod 86400) * 1000000)}) \<and>
   (8640000000000 < d \<longrightarrow>
      durationStr d = Inl UncaughtRangeError \<and>
      post_mute db now new_id (Some i) (Some owner) notifications d = (db, Inl UncaughtRangeError) \<and>
      fst (post_mute db now new_id ident token notifications d) = db)"
proof (intro conjI impI)
  note r = durationStr_ranges [of d]
  {
    assume "d \<le> 0"
    with r show t: "durationStr d = Inr None" by simp
    from post_mute_stored_duration [OF assms t]
    show "set (map mute_duration
        (mute_rows (fst (post_mute db now new_id (Some i) (Some owner) notifications d))
           (owner_id owner) i)) = {None}"
      by simp
  }
  {
    assume h: "0 < d \<and> d \<le> 8640000000000"
    with r show t: "durationStr d = Inr (Some (hh_mm_ss (nat (\<lfloor>d\<rfloor> mod 86400))))" by simp
    have "interval_of_text (hh_mm_ss (nat (\<lfloor>d\<rfloor> mod 86400))) = (\<lfloor>d\<rfloor> mod 86400) * 1000000"
      using interval_of_hh_mm_ss [of "nat (\<lfloor>d\<rfloor> mod 86400)"] by simp
    with post_mute_stored_duration [OF assms t]
    show "set (map mute_duration
        (mute_rows (fst (post_mute db now new_id (Some i) (Some owner) notifications d))
           (owner_id owner) i)) = {Some ((\<lfloor>d\<rfloor> mod 86400) * 1000000)}"
      by simp
  }
  {
    assume h: "8640000000000 < d"
    with r show "durationStr d = Inl UncaughtRangeError" by simp
    from h assms show "post_mute db now new_id (Some i) (Some owner) notifications d
        = (db, Inl UncaughtRangeError)"
      by (rule post_mute_out_of_range(2))
    from h show "fst (post_mute db now new_id ident token notifications d) = db"
      by (rule post_mute_out_of_range(1))
  }
qed

theorem mute_duration_time_of_day_witness:
  "find (\<lambda>a. account_id a = 102) (accounts muted_store) = Some (local_account 102 ''target'') \<and>
   durationStr 0 = Inr None \<and>
   set (map mute_duration
     (mute_rows (fst (post_mute muted_store 5000 52 (Some 102) (Some the_viewer) True 0)) 101 102))
     = {None} \<and>
   durationStr 86400 = Inr (Some ''00:00:00'') \<and>
   set (map mute_duration
     (mute_rows (fst (post_mute muted_store 5000 52 (Some 102) (Some the_viewer) True 86400)) 101 102))
     = {Some 0} \<and>
   durationStr (180123 / 2) = Inr (Some ''01:01:01'') \<and>
   set (map mute_duration
     (mute_rows (fst (post_mute muted_store 5000 52 (Some 102) (Some the_viewer) True (180123 / 2)))
        101 102))
     = {Some 3661000000} \<and>
   post_mute muted_store 5000 52 (Some 102) (Some the_viewer) True 8640000000001
     = (muted_store, Inl UncaughtRangeError)"
proof -
  have a: "find (\<lambda>a. account_id a = 102) (accounts muted_store) = Some (local_account 102 ''target'')"
    by (simp add: muted_store_def empty_store_def local_account_def)
  have t: "hh_mm_ss 0 = ''00:00:00''" "hh_mm_ss 3661 = ''01:01:01''"
    by (simp_all add: hh_mm_ss_def two_digits_def)
  have v: "owner_id the_viewer = 101"
    by (simp add: the_viewer_def)
  note inst = mute_duration_time_of_day [OF a, where now = 5000 and new_id = 52
      and owner = the_viewer and notifications = True, unfolded v]
  from inst [where d = 0] inst [where d = 86400] inst [where d = "180123 / 2"]
    inst [where d = 8640000000001] a
  show ?thesis
    by (simp add: t)
qed

text \<open>The claim as stated, that every positive duration is stored as a time-of-day text,
  fails at 8640000000001 seconds: the handler ends in the exception, and the mute row of
  the pair stays as it was.\<close>

theorem mute_beyond_date_range_throws:
  "post_mute muted_store 5000 52 (Some 102) (Some the_viewer) True 8640000000001
     = (muted_store, Inl UncaughtRangeError) \<and>
   durationStr 8640000000001 = Inl UncaughtRangeError"
  by (simp add: post_mute_def durationStr_def toISOString_time_def muted_store_def empty_store_def
      local_account_def)

subsection \<open>The conflict update\<close>

lemma filter_key_single:
  "distinct (map f xs) \<Longrightarrow> x \<in> set xs \<Longrightarrow> filter (\<lambda>y. f y = f x) xs = [x]"
proof (induction xs)
  case Nil
  then show ?case by simp
next
  case (Cons y ys)
  show ?case
  proof (cases "x = y")
    case True
    with Cons.prems have "filter (\<lambda>z. f z = f x) ys = []"
      by (auto simp: filter_empty_conv image_iff)
    with True show ?thesis by simp
  next
    case False
    with Cons show ?thesis by auto
  qed
qed

lemma upsert_mute_pairs:
  "map mute_pair (upsert_mute rows new now) =
     (if mute_pair new \<in> mute_pair ` set rows then map mute_pair rows
      else map mute_pair rows @ [mute_pair new])"
  proof -
  have "list_ex (\<lambda>m. mute_pair m = mute_pair new) rows \<longleftrightarrow> mute_pair new \<in> mute_pair ` set rows"
    unfolding list_ex_iff image_iff by metis
  moreover have "map mute_pair (map (\<lambda>m. if mute_pair m = k then m\<lparr>mute_notifications := a,
      mute_duration := b, mute_created := c\<rparr> else m) rows) = map mute_pair rows" for k a b c
    by (simp add: mute_pair_def)
  ultimately show ?thesis
    by (simp add: upsert_mute_def)
qed

lemma upsert_mute_distinct:
  "distinct (map mute_pair rows) \<Longrightarrow> distinct (map mute_pair (upsert_mute rows new now))"
  by (simp add: upsert_mute_pairs)

lemma upsert_mute_others:
  "filter (\<lambda>x. mute_pair x \<noteq> mute_pair new) (upsert_mute rows new now)
     = filter (\<lambda>x. mute_pair x \<noteq> mute_pair new) rows"
proof -
  have "filter (\<lambda>x. mute_pair x \<noteq> k)
          (map (\<lambda>m. if mute_pair m = k then g m else m) rows)
        = filter (\<lambda>x. mute_pair x \<noteq> k) rows" if "\<And>m. mute_pair (g m) = mute_pair m" for k g
    using that by (induction rows) auto
  from this [of "\<lambda>m. m\<lparr>mute_notifications := mute_notifications new,
                            mute_duration := mute_duration new, mute_created := now\<rparr>" "mute_pair new"]
  show ?thesis
    by (simp add: upsert_mute_def mute_pair_def)
qed

lemma upsert_mute_conflict:
  assumes "distinct (map mute_pair rows)" and "m \<in> set rows" and "mute_pair m = mute_pair new"
  shows "length (upsert_mute rows new now) = length rows"
    and "filter (\<lambda>x. mute_pair x = mute_pair new) (upsert_mute rows new now)
         = [m\<lparr>mute_notifications := mute_notifications new,
               mute_duration := mute_duration new, mute_created := now\<rparr>]"
proof -
  let ?g = "\<lambda>m. m\<lparr>mute_notifications := mute_notifications new,
                    mute_duration := mute_duration new, mute_created := now\<rparr>"
  from assms(2,3) have ex: "list_ex (\<lambda>m. mute_pair m = mute_pair new) rows"
    by (auto simp: list_ex_iff)
  then show "length (upsert_mute rows new now) = length rows"
    by (simp add: upsert_mute_def)
  have single: "filter (\<lambda>y. mute_pair y = mute_pair new) rows = [m]"
    using filter_key_single [OF assms(1,2)] assms(3) by simp
  have "filter (\<lambda>x. mute_pair x = k) (map (\<lambda>m. if mute_pair m = k then ?g m else m) xs)
        = map ?g (filter (\<lambda>x. mute_pair x = k) xs)" for k xs
    by (induction xs) (auto simp: mute_pair_def)
  with ex single show "filter (\<lambda>x. mute_pair x = mute_pair new) (upsert_mute rows new now) = [?g m]"
    by (simp add: upsert_mute_def)
qed

text \<open>Whatever the request and its outcome, the handler leaves at most one row for each
  ordered pair.\<close>

lemma post_mute_keeps_pairs_distinct:
  assumes "distinct (map mute_pair (mutes db))"
  shows "distinct (map mute_pair (mutes (fst (post_mute db now new_id ident token notifications duration))))"
  using assms
  by (auto simp: post_mute_def Let_def upsert_mute_distinct split: option.splits sum.splits)

text \<open>
  C7. Let the mute handler succeed on a table of mutes with at most one row for each
  ordered pair. Then the new table has at most one row for each pair. If the pair
  (owner, muted account) had a row, the table keeps its length and the pair's only row is
  the old one with the notifications flag and the duration of the request and with
  \<^verbatim>\<open>created\<close> set to the current time; if it had none, one row is appended. The rows of
  the other pairs stay as they are.
\<close>

theorem mute_upserts_one_row:
  assumes "post_mute db now new_id (Some i) (Some owner) notifications duration = (db', Inr rel)"
    and "durationStr duration = Inr text"
    and "distinct (map mute_pair (mutes db))"
  shows "distinct (map mute_pair (mutes db')) \<and>
    (\<forall>m \<in> set (mutes db). mute_pair m = (owner_id owner, i) \<longrightarrow>
       length (mutes db') = length (mutes db) \<and>
       filter (\<lambda>x. mute_pair x = (owner_id owner, i)) (mutes db')
         = [m\<lparr>mute_notifications := notifications,
               mute_duration := map_option interval_of_text text,
               mute_created := now\<rparr>]) \<and>
    filter (\<lambda>x. mute_pair x \<noteq> (owner_id owner, i)) (mutes db')
      = filter (\<lambda>x. mute_pair x \<noteq> (owner_id owner, i)) (mutes db) \<and>
    ((owner_id owner, i) \<notin> mute_pair ` set (mutes db) \<longrightarrow>
       mutes db' = mutes db @
         [\<lparr>mute_id = new_id, mute_accountId = owner_id owner, mute_mutedAccountId = i,
           mute_notifications = notifications,
           mute_duration = map_option interval_of_text text, mute_created = now\<rparr>])"
proof -
  let ?new = "\<lparr>mute_id = new_id, mute_accountId = owner_id owner, mute_mutedAccountId = i,
           mute_notifications = notifications,
           mute_duration = map_option interval_of_text text, mute_created = now\<rparr>"
  have pair: "mute_pair ?new = (owner_id owner, i)"
    by (simp add: mute_pair_def)
  from assms(1,2) have db': "mutes db' = upsert_mute (mutes db) ?new now"
    by (auto simp: post_mute_def Let_def split: option.splits dest!: find_Some_holds)
  have "mutes db' = mutes db @ [?new]" if "(owner_id owner, i) \<notin> mute_pair ` set (mutes db)"
    using that unfolding db' upsert_mute_def pair by (auto simp: list_ex_iff image_iff)
  moreover have "length (mutes db') = length (mutes db) \<and>
       filter (\<lambda>x. mute_pair x = (owner_id owner, i)) (mutes db')
         = [m\<lparr>mute_notifications := notifications,
               mute_duration := map_option interval_of_text text,
               mute_created := now\<rparr>]"
    if "m \<in> set (mutes db)" "mute_pair m = (owner_id owner, i)" for m
    using upsert_mute_conflict [OF assms(3) that(1), of ?new now] that(2)
    unfolding db' pair by simp
  ultimately show ?thesis
    using upsert_mute_distinct [OF assms(3), of ?new now] upsert_mute_others [of ?new "mutes db" now]
    unfolding db' pair by blast
qed

theorem mute_upserts_one_row_witness:
  "distinct (map mute_pair (mutes muted_store)) \<and>
   hour_mute \<in> set (mutes muted_store) \<and>
   length (mutes (fst (post_mute muted_store 5000 52 (Some 102) (Some the_viewer) False 0))) = 1 \<and>
   filter (\<lambda>x. mute_pair x = (101, 102))
      (mutes (fst (post_mute muted_store 5000 52 (Some 102) (Some the_viewer) False 0)))
     = [hour_mute\<lparr>mute_notifications := False, mute_duration := None, mute_created := 5000\<rparr>] \<and>
   mutes (fst (post_mute muted_store 5000 52 (Some 103) (Some the_viewer) True 60))
     = [hour_mute,
        \<lparr>mute_id = 52, mute_accountId = 101, mute_mutedAccountId = 103, mute_notifications = True,
         mute_duration = Some 60000000, mute_created = 5000\<rparr>]"
proof -
  let ?r1 = "post_mute muted_store 5000 52 (Some 102) (Some the_viewer) False 0"
  let ?r2 = "post_mute muted_store 5000 52 (Some 103) (Some the_viewer) True 60"
  have d: "distinct (map mute_pair (mutes muted_store))"
    and m: "hour_mute \<in> set (mutes muted_store)" "mute_pair hour_mute = (owner_id the_viewer, 102)"
    and rows: "mutes muted_store = [hour_mute]"
    and none: "(owner_id the_viewer, 103) \<notin> mute_pair ` set (mutes muted_store)"
    and v: "owner_id the_viewer = 101"
    by (simp_all add: muted_store_def hour_mute_def mute_pair_def the_viewer_def)
  have t1: "durationStr 0 = Inr None" and t2: "durationStr 60 = Inr (Some ''00:01:00'')"
    by (simp_all add: durationStr_def toISOString_time_def two_digits_def)
  have i2: "interval_of_text ''00:01:00'' = 60000000"
    by (simp add: interval_of_text_def digit_of_def)
  have "\<exists>rel. snd ?r1 = Inr rel" "\<exists>rel. snd ?r2 = Inr rel"
    by (simp_all add: post_mute_def t1 t2 read_relationship_def muted_store_def example_defs Let_def)
  then obtain rel1 rel2 where r: "?r1 = (fst ?r1, Inr rel1)" "?r2 = (fst ?r2, Inr rel2)"
    by (metis prod.collapse)
  from mute_upserts_one_row [OF r(1) t1 d] m
  have "length (mutes (fst ?r1)) = 1 \<and>
    filter (\<lambda>x. mute_pair x = (101, 102)) (mutes (fst ?r1))
      = [hour_mute\<lparr>mute_notifications := False, mute_duration := None, mute_created := 5000\<rparr>]"
    unfolding v rows by simp
  moreover from mute_upserts_one_row [OF r(2) t2 d] none
  have "mutes (fst ?r2) = [hour_mute,
        \<lparr>mute_id = 52, mute_accountId = 101, mute_mutedAccountId = 103, mute_notifications = True,
         mute_duration = Some 60000000, mute_created = 5000\<rparr>]"
    unfolding v rows by (simp add: i2)
  ultimately show ?thesis
    using d m(1) by simp
qed

section \<open>The follow handler\<close>

text \<open>
  C9. When the account to follow exists and the precondition of follow is violated (the
  owner follows itself, or a block row ties the two accounts in either direction), the
  follow operation returns the null sentinel with the store as it was, and the handler
  answers the error value \<open>ActionNotAllowed\<close> (status 403) and leaves the store as it was: no
  Follow row is created.
\<close>

theorem follow_precondition_violated:
  assumes "find (\<lambda>a. account_id a = i) (accounts db) = Some following"
    and "owner_id owner = i \<or>
         (\<exists>b \<in> set (blocks db).
            (block_accountId b = owner_id owner \<and> block_blockedAccountId b = i) \<or>
            (block_accountId b = i \<and> block_blockedAccountId b = owner_id owner))"
  shows "followAccount db now (owner_id owner) following = (db, None) \<and>
         post_follow db now (Some i) (Some owner) = (db, Inl ActionNotAllowed)"
proof -
  from assms(1) have i: "account_id following = i"
    by (auto dest: find_Some_holds)
  with assms(2) have "owner_id owner = account_id following \<or> follow_blocked db (owner_id owner) (account_id following)"
    unfolding follow_blocked_def list_ex_iff by auto
  then have "followAccount db now (owner_id owner) following = (db, None)"
    by (simp add: followAccount_def)
  with assms(1) show ?thesis
    by (simp add: post_follow_def)
qed

theorem follow_precondition_violated_witness:
  "post_follow blocked_store 0 (Some 102) (Some the_viewer) = (blocked_store, Inl ActionNotAllowed) \<and>
   post_follow blocked_store 0 (Some 103) (Some the_viewer) = (blocked_store, Inl ActionNotAllowed) \<and>
   post_follow blocked_store 0 (Some 101) (Some the_viewer) = (blocked_store, Inl ActionNotAllowed)"
proof -
  have a: "find (\<lambda>a. account_id a = 101) (accounts blocked_store) = Some (local_account 101 ''viewer'')"
    "find (\<lambda>a. account_id a = 102) (accounts blocked_store) = Some (local_account 102 ''target'')"
    "find (\<lambda>a. account_id a = 103) (accounts blocked_store) = Some (local_account 103 ''third'')"
    by (simp_all add: blocked_store_def empty_store_def local_account_def)
  have v: "owner_id the_viewer = 101"
    by (simp add: the_viewer_def)
  have "\<exists>b \<in> set (blocks blocked_store).
            (block_accountId b = owner_id the_viewer \<and> block_blockedAccountId b = 102) \<or>
            (block_accountId b = 102 \<and> block_blockedAccountId b = owner_id the_viewer)"
    and "\<exists>b \<in> set (blocks blocked_store).
            (block_accountId b = owner_id the_viewer \<and> block_blockedAccountId b = 103) \<or>
            (block_accountId b = 103 \<and> block_blockedAccountId b = owner_id the_viewer)"
    by (simp_all add: blocked_store_def v)
  with follow_precondition_violated [OF a(2), of the_viewer 0]
    follow_precondition_violated [OF a(3), of the_viewer 0]
    follow_precondition_violated [OF a(1), of the_viewer 0] v
  show ?thesis
    by simp
qed

text \<open>When the precondition holds, the handler answers a relationship and the store has
  the Follow row.\<close>

lemma follow_precondition_met:
  assumes "find (\<lambda>a. account_id a = i) (accounts db) = Some following"
    and "owner_id owner \<noteq> i" and "\<not> follow_blocked db (owner_id owner) i"
  shows "\<exists>db' rel. post_follow db now (Some i) (Some owner) = (db', Inr rel) \<and>
           (\<exists>f \<in> set (follows db'). follow_followerId f = owner_id owner \<and> follow_followingId f = i)"
proof -
  from assms(1) have i: "account_id following = i"
    by (auto dest: find_Some_holds)
  obtain db' f where fa: "followAccount db now (owner_id owner) following = (db', Some f)"
    and acc: "accounts db' = accounts db"
    and row: "\<exists>f \<in> set (follows db'). follow_followerId f = owner_id owner \<and> follow_followingId f = i"
    using assms(2,3) i
    by (cases "find (\<lambda>f. follow_followerId f = owner_id owner \<and> follow_followingId f = i) (follows db)")
       (auto simp: followAccount_def Let_def dest: find_Some_holds)
  from assms(1) acc obtain rel where "read_relationship db' i (owner_id owner) = Inr rel"
    by (simp add: read_relationship_def)
  with fa assms(1) i row show ?thesis
    by (simp add: post_follow_def)
qed

section \<open>The lookup handler\<close>

lemma persistAccount_iris:
  "map account_iri (accounts (fst (persistAccount db n a))) =
     (if actor_iri a \<in> account_iri ` set (accounts db) then map account_iri (accounts db)
      else map account_iri (accounts db) @ [actor_iri a])"
proof (cases "find (\<lambda>r. account_iri r = actor_iri a) (accounts db)")
  case None
  then have "actor_iri a \<notin> account_iri ` set (accounts db)"
    by (auto simp: find_None_iff)
  with None show ?thesis
    by (simp add: persistAccount_def Let_def)
next
  case (Some r)
  then have "r \<in> set (accounts db)" "account_iri r = actor_iri a"
    by (auto dest: find_Some_holds)
  then have "actor_iri a \<in> account_iri ` set (accounts db)"
    by (metis imageI)
  moreover have "map account_iri (map (\<lambda>x. if account_iri x = k
      then x\<lparr>account_handle := h, account_protected := b\<rparr> else x) xs) = map account_iri xs" for k h b xs
    by (induction xs) auto
  ultimately show ?thesis
    using Some by (simp add: persistAccount_def)
qed

lemma persistAccount_loaded:
  "\<exists>db' loaded. persistAccount db n a = (db', Some loaded)"
  by (simp add: persistAccount_def Let_def split: option.splits)

lemma get_lookup_cases:
  obtains (no_network) r where "get_lookup remote host db new_id token acct skip = (db, [], r)"
    | (not_an_actor) "find (\<lambda>a. account_handle a = lookup_handle host acct) (accounts db) = None"
        "\<not> skip" "get_lookup remote host db new_id token acct skip = (db, [acct], Inl RecordNotFound)"
        "\<forall>a. remote acct (map_option owner_handle token) \<noteq> Some (Actor a)"
    | (persisted) a r where "find (\<lambda>a. account_handle a = lookup_handle host acct) (accounts db) = None"
        "\<not> skip" "remote acct (map_option owner_handle token) = Some (Actor a)"
        "get_lookup remote host db new_id token acct skip = (fst (persistAccount db new_id a), [acct], r)"
proof (cases "find (\<lambda>a. account_handle a = lookup_handle host acct) (accounts db)")
  case (Some found)
  then show ?thesis
    using no_network by (simp add: get_lookup_def)
next
  case None
  show ?thesis
  proof (cases skip)
    case True
    with None show ?thesis
      using no_network by (simp add: get_lookup_def)
  next
    case False
    show ?thesis
    proof (cases "remote acct (map_option owner_handle token)")
      case no_object: None
      with None False show ?thesis
        using not_an_actor by (simp add: get_lookup_def)
    next
      case (Some obj)
      show ?thesis
      proof (cases obj)
        case (Actor a)
        obtain db' loaded where l: "persistAccount db new_id a = (db', Some loaded)"
          using persistAccount_loaded by blast
        have g: "get_lookup remote host db new_id token acct skip
            = (fst (persistAccount db new_id a), [acct], Inr (loaded\<lparr>account_owner := None\<rparr>))"
          using None False Some Actor l by (simp add: get_lookup_def)
        show ?thesis
          by (rule persisted [OF None False _ g]) (simp add: Some Actor)
      next
        case OtherObject
        with None False Some show ?thesis
          using not_an_actor by (simp add: get_lookup_def)
      qed
    qed
  qed
qed

lemma get_lookup_found:
  assumes "list_ex (\<lambda>a. account_handle a = lookup_handle host acct) (accounts db)"
  shows "\<exists>r. get_lookup remote host db new_id token acct skip = (db, [], r)"
proof -
  from assms obtain found where
    "find (\<lambda>a. account_handle a = lookup_handle host acct) (accounts db) = Some found"
    by (cases "find (\<lambda>a. account_handle a = lookup_handle host acct) (accounts db)")
       (auto simp: find_None_iff list_ex_iff)
  then show ?thesis
    by (simp add: get_lookup_def)
qed

lemma get_lookup_distinct:
  assumes "distinct (map account_iri (accounts db))"
  shows "distinct (map account_iri (accounts (fst (get_lookup remote host db new_id token acct skip))))"
proof (cases rule: get_lookup_cases [of remote host db new_id token acct skip])
  case (persisted a r)
  with assms show ?thesis
    by (simp add: persistAccount_iris)
qed (use assms in simp_all)

lemma lookup_twice_parts:
  "lookup_twice remote host db id1 id2 token acct skip =
     (fst (get_lookup remote host (fst (get_lookup remote host db id1 token acct skip)) id2 token acct skip),
      fst (snd (get_lookup remote host db id1 token acct skip)) @
      fst (snd (get_lookup remote host (fst (get_lookup remote host db id1 token acct skip)) id2 token acct skip)),
      snd (snd (get_lookup remote host (fst (get_lookup remote host db id1 token acct skip)) id2 token acct skip)))"
  by (simp add: lookup_twice_def split: prod.splits)

lemma get_lookup_log_id:
  "fst (snd (get_lookup remote host db id1 token acct skip))
     = fst (snd (get_lookup remote host db id2 token acct skip))"
  by (simp add: get_lookup_def split: option.splits object.splits prod.splits)

lemma lookup_without_network_again:
  assumes "get_lookup remote host db id1 token acct skip = (db, derefs, r)" and "derefs \<noteq> [acct]"
  shows "fst (get_lookup remote host db id2 token acct skip) = db"
proof (cases rule: get_lookup_cases [of remote host db id2 token acct skip])
  case (persisted a r')
  with assms show ?thesis
    using get_lookup_log_id [of remote host db id1 token acct skip id2] by simp
qed simp_all

lemma second_lookup_adds_no_row:
  "length (accounts (fst (get_lookup remote host (fst (get_lookup remote host db id1 token acct skip)) id2 token acct skip)))
     = length (accounts (fst (get_lookup remote host db id1 token acct skip)))"
proof (cases rule: get_lookup_cases [of remote host db id1 token acct skip])
  case (no_network r)
  then show ?thesis
    using lookup_without_network_again [of remote host db id1 token acct skip "[]" r id2] by simp
next
  case not_an_actor
  have "fst (get_lookup remote host db id2 token acct skip) = db"
  proof (cases rule: get_lookup_cases [of remote host db id2 token acct skip])
    case (persisted a r')
    with not_an_actor show ?thesis by simp
  qed simp_all
  with not_an_actor show ?thesis by simp
next
  case (persisted a r)
  let ?db1 = "fst (persistAccount db id1 a)"
  from persisted have first: "fst (get_lookup remote host db id1 token acct skip) = ?db1" by simp
  have known: "actor_iri a \<in> account_iri ` set (accounts ?db1)"
    using persistAccount_iris [of db id1 a]
    by (metis (no_types, lifting) image_set in_set_conv_decomp)
  have "length (accounts (fst (get_lookup remote host ?db1 id2 token acct skip))) = length (accounts ?db1)"
  proof (cases rule: get_lookup_cases [of remote host ?db1 id2 token acct skip])
    case second: (persisted a' r')
    with persisted have "a' = a" by simp
    with second known show ?thesis
      using persistAccount_iris [of ?db1 id2 a]
      by (metis fst_conv length_map)
  qed simp_all
  then show ?thesis
    by (simp add: first)
qed

lemma persistAccount_handle:
  "list_ex (\<lambda>r. account_handle r = actor_handle a) (accounts (fst (persistAccount db n a)))"
proof (cases "find (\<lambda>r. account_iri r = actor_iri a) (accounts db)")
  case None
  then show ?thesis
    by (simp add: persistAccount_def Let_def)
next
  case (Some r)
  then have "r \<in> set (accounts db)" "account_iri r = actor_iri a"
    by (auto dest: find_Some_holds)
  then have "\<exists>x \<in> set (map (\<lambda>x. if account_iri x = actor_iri a
      then x\<lparr>account_handle := actor_handle a, account_protected := actor_protected a\<rparr>
      else x) (accounts db)). account_handle x = actor_handle a"
    by (intro bexI [of _ "r\<lparr>account_handle := actor_handle a, account_protected := actor_protected a\<rparr>"])
       (auto simp: image_iff intro!: bexI [of _ r])
  with Some show ?thesis
    by (simp add: persistAccount_def list_ex_iff)
qed

lemma get_lookup_log_bound:
  "length (fst (snd (get_lookup remote host db new_id token acct skip))) \<le> 1"
  by (cases rule: get_lookup_cases [of remote host db new_id token acct skip]) simp_all

lemma lookup_twice_resolved_once:
  assumes "remote acct (map_option owner_handle token) = Some (Actor a)"
    and "actor_handle a = lookup_handle host acct"
  shows "length (fst (snd (lookup_twice remote host db id1 id2 token acct skip))) \<le> 1"
proof (cases rule: get_lookup_cases [of remote host db id1 token acct skip])
  case (no_network r)
  then show ?thesis
    using get_lookup_log_bound [of remote host db id2 token acct skip]
    by (simp add: lookup_twice_parts)
next
  case not_an_actor
  with assms(1) show ?thesis by simp
next
  case (persisted a' r)
  with assms(1) have "a' = a" by simp
  with persisted have first: "get_lookup remote host db id1 token acct skip
      = (fst (persistAccount db id1 a), [acct], r)" by simp
  have "list_ex (\<lambda>r. account_handle r = lookup_handle host acct)
      (accounts (fst (persistAccount db id1 a)))"
    using persistAccount_handle [of a db id1] assms(2) by simp
  from get_lookup_found [OF this, of remote id2 token skip] first show ?thesis
    by (auto simp: lookup_twice_parts)
qed

lemma lookup_twice_unresolved:
  assumes "find (\<lambda>a. account_handle a = lookup_handle host acct) (accounts db) = None"
    and "\<not> skip" and "\<forall>a. remote acct (map_option owner_handle token) \<noteq> Some (Actor a)"
  shows "lookup_twice remote host db id1 id2 token acct skip = (db, [acct, acct], Inl RecordNotFound)"
proof -
  have "get_lookup remote host db n token acct skip = (db, [acct], Inl RecordNotFound)" for n
    using assms
    by (cases "remote acct (map_option owner_handle token)")
       (auto simp: get_lookup_def split: object.splits)
  then show ?thesis
    by (simp add: lookup_twice_def)
qed

text \<open>
  C10, as amended. For an identifier that does not begin with \<^verbatim>\<open>@\<close>: when a local row has
  the handle of the identifier, the handler answers that row, dereferences nothing and
  writes nothing. It dereferences or writes only when no local row has that handle and
  \<^verbatim>\<open>skip_webfinger\<close> is \<^verbatim>\<open>"false"\<close>, and then dereferences once. Resolving the same
  identifier twice: when it resolves to an actor of that handle, at most one of the two
  requests dereferences; when no local row has the handle and it resolves to no actor,
  nothing is kept of the failure and both requests dereference; the second request never
  adds a row, and rows stay distinct by their federation IRI.
\<close>

theorem lookup_local_first:
  assumes "take 1 acct \<noteq> ''@''"
  shows
  "(find (\<lambda>a. account_handle a = lookup_handle host acct) (accounts db) = Some found \<longrightarrow>
      get_lookup remote host db id1 token acct skip = (db, [], Inr found)) \<and>
   (fst (snd (get_lookup remote host db id1 token acct skip)) \<noteq> [] \<or>
    fst (get_lookup remote host db id1 token acct skip) \<noteq> db \<longrightarrow>
      find (\<lambda>a. account_handle a = lookup_handle host acct) (accounts db) = None \<and> \<not> skip) \<and>
   length (fst (snd (get_lookup remote host db id1 token acct skip))) \<le> 1 \<and>
   (remote acct (map_option owner_handle token) = Some (Actor a) \<and>
    actor_handle a = lookup_handle host acct \<longrightarrow>
      length (fst (snd (lookup_twice remote host db id1 id2 token acct skip))) \<le> 1) \<and>
   (find (\<lambda>a. account_handle a = lookup_handle host acct) (accounts db) = None \<and> \<not> skip \<and>
    (\<forall>a. remote acct (map_option owner_handle token) \<noteq> Some (Actor a)) \<longrightarrow>
      lookup_twice remote host db id1 id2 token acct skip
        = (db, [acct, acct], Inl RecordNotFound)) \<and>
   length (accounts (fst (lookup_twice remote host db id1 id2 token acct skip)))
     = length (accounts (fst (get_lookup remote host db id1 token acct skip))) \<and>
   (distinct (map account_iri (accounts db)) \<longrightarrow>
      distinct (map account_iri (accounts (fst (lookup_twice remote host db id1 id2 token acct skip)))))"
proof (intro conjI impI)
  show "get_lookup remote host db id1 token acct skip = (db, [], Inr found)"
    if "find (\<lambda>a. account_handle a = lookup_handle host acct) (accounts db) = Some found"
    using that by (simp add: get_lookup_def)
  show "find (\<lambda>a. account_handle a = lookup_handle host acct) (accounts db) = None"
    and "\<not> skip"
    if "fst (snd (get_lookup remote host db id1 token acct skip)) \<noteq> [] \<or>
        fst (get_lookup remote host db id1 token acct skip) \<noteq> db"
    using that by (cases rule: get_lookup_cases [of remote host db id1 token acct skip]; simp)+
  show "length (fst (snd (get_lookup remote host db id1 token acct skip))) \<le> 1"
    by (rule get_lookup_log_bound)
  show "length (fst (snd (lookup_twice remote host db id1 id2 token acct skip))) \<le> 1"
    if "remote acct (map_option owner_handle token) = Some (Actor a) \<and>
        actor_handle a = lookup_handle host acct"
    using that lookup_twice_resolved_once by blast
  show "lookup_twice remote host db id1 id2 token acct skip = (db, [acct, acct], Inl RecordNotFound)"
    if "find (\<lambda>a. account_handle a = lookup_handle host acct) (accounts db) = None \<and> \<not> skip \<and>
        (\<forall>a. remote acct (map_option owner_handle token) \<noteq> Some (Actor a))"
    using that lookup_twice_unresolved by blast
  show "length (accounts (fst (lookup_twice remote host db id1 id2 token acct skip)))
     = length (accounts (fst (get_lookup remote host db id1 token acct skip)))"
    by (simp add: lookup_twice_parts second_lookup_adds_no_row)
  show "distinct (map account_iri (accounts (fst (lookup_twice remote host db id1 id2 token acct skip))))"
    if "distinct (map account_iri (accounts db))"
    using that by (simp add: lookup_twice_parts get_lookup_distinct)
qed

lemmas lookup_defs =
  get_lookup_def persistAccount_def lookup_handle_def remote_alice_def alice_def
  empty_store_def local_account_def Let_def

theorem lookup_local_first_witness:
  "take 1 ''target'' \<noteq> ''@'' \<and> take 1 ''alice@remote.example'' \<noteq> ''@'' \<and>
   take 1 ''bob@remote.example'' \<noteq> ''@'' \<and>
   get_lookup remote_alice ''local.example'' empty_store 201 None ''target'' False
     = (empty_store, [], Inr (local_account 102 ''target'')) \<and>
   remote_alice ''alice@remote.example'' None = Some (Actor alice) \<and>
   actor_handle alice = lookup_handle ''local.example'' ''alice@remote.example'' \<and>
   fst (snd (lookup_twice remote_alice ''local.example'' empty_store 201 202 None ''alice@remote.example'' False))
     = [''alice@remote.example''] \<and>
   length (accounts (fst (lookup_twice remote_alice ''local.example'' empty_store 201 202 None
      ''alice@remote.example'' False))) = 4 \<and>
   distinct (map account_iri (accounts empty_store)) \<and>
   distinct (map account_iri (accounts (fst (lookup_twice remote_alice ''local.example'' empty_store
      201 202 None ''alice@remote.example'' False)))) \<and>
   lookup_twice remote_alice ''local.example'' empty_store 201 202 None ''bob@remote.example'' False
     = (empty_store, [''bob@remote.example'', ''bob@remote.example''], Inl RecordNotFound)"
proof -
  let ?first = "get_lookup remote_alice ''local.example'' empty_store 201 None ''alice@remote.example'' False"
  have n: "take 1 ''target'' \<noteq> ''@''" "take 1 ''alice@remote.example'' \<noteq> ''@''"
    "take 1 ''bob@remote.example'' \<noteq> ''@''"
    by simp_all
  have local: "find (\<lambda>a. account_handle a = lookup_handle ''local.example'' ''target'') (accounts empty_store)
      = Some (local_account 102 ''target'')"
    by (simp add: lookup_defs)
  have net: "remote_alice ''alice@remote.example'' (map_option owner_handle None) = Some (Actor alice)"
    "actor_handle alice = lookup_handle ''local.example'' ''alice@remote.example''"
    "\<forall>a. remote_alice ''bob@remote.example'' (map_option owner_handle None) \<noteq> Some (Actor a)"
    "find (\<lambda>a. account_handle a = lookup_handle ''local.example'' ''bob@remote.example'')
       (accounts empty_store) = None"
    by (simp_all add: lookup_defs)
  have first: "fst (snd ?first) = [''alice@remote.example'']" "length (accounts (fst ?first)) = 4"
    "distinct (map account_iri (accounts empty_store))"
    by (simp_all add: lookup_defs)
  note target_inst = lookup_local_first [OF n(1), where remote = remote_alice
      and host = "''local.example''" and db = empty_store and ?id1.0 = 201 and token = None
      and skip = False and found = "local_account 102 ''target''"]
  have c1: "get_lookup remote_alice ''local.example'' empty_store 201 None ''target'' False
     = (empty_store, [], Inr (local_account 102 ''target''))"
    by (rule target_inst [THEN conjunct1, THEN mp, OF local])
  note alice_inst = lookup_local_first [OF n(2), where remote = remote_alice
      and host = "''local.example''" and db = empty_store and ?id1.0 = 201 and ?id2.0 = 202
      and token = None and skip = False and a = alice]
  note alice_rest = alice_inst [THEN conjunct2, THEN conjunct2, THEN conjunct2]
  have "length (fst (snd (lookup_twice remote_alice ''local.example'' empty_store 201 202 None
      ''alice@remote.example'' False))) \<le> 1"
    by (rule alice_rest [THEN conjunct1, THEN mp, OF conjI [OF net(1) net(2)]])
  moreover have "fst (snd (lookup_twice remote_alice ''local.example'' empty_store 201 202 None
      ''alice@remote.example'' False)) = ''alice@remote.example'' # fst (snd
        (get_lookup remote_alice ''local.example'' (fst ?first) 202 None ''alice@remote.example'' False))"
    using first(1) by (simp add: lookup_twice_parts)
  ultimately have c2: "fst (snd (lookup_twice remote_alice ''local.example'' empty_store 201 202 None
      ''alice@remote.example'' False)) = [''alice@remote.example'']"
    by simp
  have c3: "length (accounts (fst (lookup_twice remote_alice ''local.example'' empty_store 201 202 None
      ''alice@remote.example'' False))) = 4"
    using alice_rest [THEN conjunct2, THEN conjunct2, THEN conjunct1] first(2) by simp
  have c4: "distinct (map account_iri (accounts (fst (lookup_twice remote_alice ''local.example''
      empty_store 201 202 None ''alice@remote.example'' False))))"
    by (rule alice_rest [THEN conjunct2, THEN conjunct2, THEN conjunct2, THEN mp, OF first(3)])
  note bob_inst = lookup_local_first [OF n(3), where remote = remote_alice
      and host = "''local.example''" and db = empty_store and ?id1.0 = 201 and ?id2.0 = 202
      and token = None and skip = False]
  have unresolved: "find (\<lambda>a. account_handle a = lookup_handle ''local.example'' ''bob@remote.example'')
       (accounts empty_store) = None \<and> \<not> False \<and>
       (\<forall>a. remote_alice ''bob@remote.example'' (map_option owner_handle None) \<noteq> Some (Actor a))"
    using net(3,4) by simp
  have c5: "lookup_twice remote_alice ''local.example'' empty_store 201 202 None ''bob@remote.example'' False
     = (empty_store, [''bob@remote.example'', ''bob@remote.example''], Inl RecordNotFound)"
    by (rule bob_inst [THEN conjunct2, THEN conjunct2, THEN conjunct2, THEN conjunct2,
          THEN conjunct1, THEN mp, OF unresolved])
  have net': "remote_alice ''alice@remote.example'' None = Some (Actor alice)"
    using net(1) by simp
  from n c1 net' net(2) c2 c3 first(3) c4 c5 show ?thesis
    by (intro conjI)
qed

text \<open>The claim as stated, that resolving the same identifier twice dereferences at most
  once, fails. The identifier \<^verbatim>\<open>bob@remote.example\<close> resolves to no actor, no row is left
  of the first request, and the second request dereferences again.\<close>

theorem lookup_twice_dereferences_twice:
  "fst (snd (lookup_twice remote_alice ''local.example'' empty_store 201 202 None
      ''bob@remote.example'' False))
     = [''bob@remote.example'', ''bob@remote.example'']"
  by (simp add: lookup_twice_def lookup_defs)

section \<open>Pages that follow the cursor\<close>

lemma statuses_page_cursor:
  assumes "statuses_page db now viewer ident q = (page, Some c)"
  shows "\<exists>p \<in> set (matching_posts db now viewer ident q). post_id p = c"
    and "length page = query_limit q"
    and "page = take (query_limit q) (matching_posts db now viewer ident q)"
    and "query_limit q < length (matching_posts db now viewer ident q)"
    and "c = post_id (matching_posts db now viewer ident q ! query_limit q)"
proof -
  let ?rows = "matching_posts db now viewer ident q" and ?l = "query_limit q"
  from assms have len: "?l < length (take (?l + 1) ?rows)"
    and c: "c = post_id (take (?l + 1) ?rows ! ?l)" and page: "page = take ?l (take (?l + 1) ?rows)"
    by (auto simp: statuses_page_def postList_def Let_def split: if_splits)
  from len show l: "?l < length ?rows" by simp
  from c show c': "c = post_id (?rows ! ?l)" by simp
  from page show "page = take ?l ?rows" by (simp add: min_def)
  with l show "length page = ?l" by simp
  from l have "?rows ! ?l \<in> set ?rows" by (rule nth_mem)
  with c' show "\<exists>p \<in> set ?rows. post_id p = c" by auto
qed

lemma statuses_page_last:
  assumes "statuses_page db now viewer ident q = (page, None)"
  shows "page = matching_posts db now viewer ident q" and "length page \<le> query_limit q"
proof -
  let ?rows = "matching_posts db now viewer ident q" and ?l = "query_limit q"
  from assms have len: "\<not> ?l < length (take (?l + 1) ?rows)"
    and page: "page = take ?l (take (?l + 1) ?rows)"
    by (auto simp: statuses_page_def postList_def Let_def split: if_splits)
  from len have "length ?rows \<le> ?l" by simp
  with page show "page = ?rows" "length page \<le> ?l" by simp_all
qed

lemma cursor_below_max_id:
  assumes "p \<in> set (matching_posts db now viewer ident q)" and "q_max_id q = Some m"
  shows "post_id p < m"
  using assms by (simp add: matching_posts_iff statuses_where_def option_clauses_def)

lemma filter_length_less:
  assumes "\<And>x. P x \<Longrightarrow> Q x" and "x \<in> set xs" and "Q x" and "\<not> P x"
  shows "length (filter P xs) < length (filter Q xs)"
proof -
  have "filter P xs = filter P (filter Q xs)"
    using assms(1) by (auto intro: filter_cong)
  moreover have "x \<in> set (filter Q xs)" using assms by simp
  then have "length (filter P (filter Q xs)) < length (filter Q xs)"
    using assms(4) by (rule length_filter_less)
  ultimately show ?thesis by simp
qed

lemma below_cursor_decreases:
  assumes "statuses_page db now viewer ident q = (page, Some c)"
  shows "below_cursor db (q\<lparr>q_max_id := Some c\<rparr>) < below_cursor db q"
proof -
  from statuses_page_cursor(1) [OF assms] obtain p
    where p: "p \<in> set (matching_posts db now viewer ident q)" "post_id p = c" by blast
  then have mem: "p \<in> set (posts db)" by (simp add: matching_posts_iff)
  show ?thesis
  proof (cases "q_max_id q")
    case None
    have "length (filter (\<lambda>p. post_id p < c) (posts db)) < Suc (length (posts db))"
      by (rule le_imp_less_Suc) (rule length_filter_le)
    with None show ?thesis by (simp add: below_cursor_def)
  next
    case (Some m)
    with p have "c < m" using cursor_below_max_id by blast
    have "length (filter (\<lambda>p. post_id p < c) (posts db)) < length (filter (\<lambda>p. post_id p < m) (posts db))"
    proof (rule filter_length_less [of _ _ p])
      show "post_id x < m" if "post_id x < c" for x using that \<open>c < m\<close> by simp
      show "p \<in> set (posts db)" by (rule mem)
      show "post_id p < m" using p(2) \<open>c < m\<close> by simp
      show "\<not> post_id p < c" using p(2) by simp
    qed
    with Some show ?thesis by (simp add: below_cursor_def)
  qed
qed

termination follow_cursors
proof (relation "measure (\<lambda>(db, now, viewer, ident, q). below_cursor db q)")
  show "wf (measure (\<lambda>(db, now, viewer, ident, q). below_cursor db q))" by simp
next
  fix db now viewer ident q x1 x2 c
  assume "(x1, x2) = statuses_page db now viewer ident q" and "x2 = Some c"
  then have "statuses_page db now viewer ident q = (x1, Some c)" by simp
  then show "((db, now, viewer, ident, q\<lparr>q_max_id := Some c\<rparr>), db, now, viewer, ident, q)
       \<in> measure (\<lambda>(db, now, viewer, ident, q). below_cursor db q)"
    by (simp add: below_cursor_decreases)
qed

declare follow_cursors.simps [simp del]

lemma follow_cursors_last:
  "statuses_page db now viewer ident q = (page, None) \<Longrightarrow>
     follow_cursors db now viewer ident q = [page]"
  by (subst follow_cursors.simps) simp

lemma follow_cursors_next:
  "statuses_page db now viewer ident q = (page, Some c) \<Longrightarrow>
     follow_cursors db now viewer ident q
       = page # follow_cursors db now viewer ident (q\<lparr>q_max_id := Some c\<rparr>)"
  by (subst follow_cursors.simps) simp

lemma query_limit_cursor [simp]: "query_limit (q\<lparr>q_max_id := c\<rparr>) = query_limit q"
  by (simp add: query_limit_def)

lemma matching_posts_tighter:
  assumes "p \<in> set (matching_posts db now viewer ident (q\<lparr>q_max_id := Some c\<rparr>))"
    and "\<And>m. q_max_id q = Some m \<Longrightarrow> c < m"
  shows "p \<in> set (matching_posts db now viewer ident q)" and "post_id p < c"
proof -
  from assms(1) show "post_id p < c"
    by (simp add: cursor_below_max_id)
  with assms show "p \<in> set (matching_posts db now viewer ident q)"
    by (auto simp: matching_posts_iff statuses_where_def option_clauses_def split: option.splits)
qed

lemma follow_cursors_eligible:
  "p \<in> set (concat (follow_cursors db now viewer ident q)) \<Longrightarrow>
     p \<in> set (matching_posts db now viewer ident q)"
proof (induction db now viewer ident q rule: follow_cursors.induct)
  case (1 db now viewer ident q)
  obtain page nxt where sp: "statuses_page db now viewer ident q = (page, nxt)"
    by (cases "statuses_page db now viewer ident q")
  show ?case
  proof (cases nxt)
    case None
    with sp have l: "statuses_page db now viewer ident q = (page, None)" by simp
    from "1.prems" show ?thesis
      unfolding follow_cursors_last [OF l] statuses_page_last(1) [OF l] by simp
  next
    case (Some c)
    note sp' = sp [unfolded Some]
    from statuses_page_cursor(1) [OF sp'] have below: "c < m" if "q_max_id q = Some m" for m
      using that cursor_below_max_id by blast
    from "1.prems" have "p \<in> set page \<or>
        p \<in> set (concat (follow_cursors db now viewer ident (q\<lparr>q_max_id := Some c\<rparr>)))"
      by (simp add: follow_cursors_next [OF sp'])
    then show ?thesis
    proof
      assume "p \<in> set page"
      then show ?thesis
        unfolding statuses_page_cursor(3) [OF sp'] by (rule in_set_takeD)
    next
      assume "p \<in> set (concat (follow_cursors db now viewer ident (q\<lparr>q_max_id := Some c\<rparr>)))"
      then have "p \<in> set (matching_posts db now viewer ident (q\<lparr>q_max_id := Some c\<rparr>))"
        using "1.IH" [OF sp [symmetric] Some] by simp
      then show ?thesis
        using below by (rule matching_posts_tighter(1))
    qed
  qed
qed

lemma follow_cursors_page_sizes:
  "(\<forall>page \<in> set (butlast (follow_cursors db now viewer ident q)). length page = query_limit q) \<and>
   follow_cursors db now viewer ident q \<noteq> [] \<and>
   length (last (follow_cursors db now viewer ident q)) \<le> query_limit q"
proof (induction db now viewer ident q rule: follow_cursors.induct)
  case (1 db now viewer ident q)
  obtain page nxt where sp: "statuses_page db now viewer ident q = (page, nxt)"
    by (cases "statuses_page db now viewer ident q")
  show ?case
  proof (cases nxt)
    case None
    with sp show ?thesis
      by (simp add: follow_cursors_last statuses_page_last(2))
  next
    case (Some c)
    note sp' = sp [unfolded Some]
    from "1.IH" [OF sp [symmetric] Some] statuses_page_cursor(2) [OF sp'] show ?thesis
      by (simp add: follow_cursors_next [OF sp'])
  qed
qed

lemma ascending_keys_ascending_ids:
  assumes "sorted (map (\<lambda>p. (post_published p, post_id p)) ys)"
    and "distinct (map post_id ys)"
    and "\<And>a b. a \<in> set ys \<Longrightarrow> b \<in> set ys \<Longrightarrow> post_id a < post_id b
           \<Longrightarrow> post_published a \<le> post_published b"
  shows "sorted_wrt (\<lambda>a b. post_id a < post_id b) ys"
  using assms
proof (induction ys)
  case Nil
  then show ?case by simp
next
  case (Cons y ys)
  have "post_id y < post_id b" if b: "b \<in> set ys" for b
  proof (rule ccontr)
    assume "\<not> post_id y < post_id b"
    moreover from Cons.prems(2) b have "post_id y \<noteq> post_id b" by auto
    ultimately have lt: "post_id b < post_id y" by simp
    with Cons.prems(3) [of b y] b have "post_published b \<le> post_published y" by simp
    moreover from Cons.prems(1) b
    have "(post_published y, post_id y) \<le> (post_published b, post_id b)" by auto
    ultimately show False
      using lt by (auto simp: less_eq_prod_def)
  qed
  moreover have "sorted_wrt (\<lambda>a b. post_id a < post_id b) ys"
    using Cons.prems by (intro Cons.IH) auto
  ultimately show ?case by simp
qed

lemma matching_posts_descending_ids:
  assumes "ids_follow_publication db"
  shows "sorted_wrt (\<lambda>a b. post_id a > post_id b) (matching_posts db now viewer ident q)"
proof -
  let ?xs = "filter (statuses_where db now viewer ident (following_rows db viewer ident) q) (posts db)"
  let ?ys = "sort_key (\<lambda>p. (post_published p, post_id p)) ?xs"
  from assms have d: "distinct (map post_id (posts db))"
    and m0: "\<forall>p\<in>set (posts db). \<forall>p'\<in>set (posts db).
        post_id p' \<le> post_id p \<or> post_published p \<le> post_published p'"
    by (auto simp: ids_follow_publication_def list_all_iff)
  have m: "post_published a \<le> post_published b"
    if "a \<in> set (posts db)" "b \<in> set (posts db)" "post_id a < post_id b" for a b
  proof -
    from m0 that(1,2) have "post_id b \<le> post_id a \<or> post_published a \<le> post_published b"
      by blast
    with that(3) show ?thesis by simp
  qed
  from d have "distinct (map post_id ?xs)"
    by (rule distinct_map_filter)
  then have "distinct ?xs" and "inj_on post_id (set ?xs)"
    by (simp_all add: distinct_map)
  then have "distinct (map post_id ?ys)"
    by (simp add: distinct_map)
  moreover have "sorted (map (\<lambda>p. (post_published p, post_id p)) ?ys)"
    by simp
  ultimately have "sorted_wrt (\<lambda>a b. post_id a < post_id b) ?ys"
    using m by (intro ascending_keys_ascending_ids) auto
  then have "sorted_wrt (\<lambda>a b. post_id b < post_id a) (rev ?ys)"
    by (simp add: sorted_wrt_rev)
  then show ?thesis
    by (simp add: matching_posts_def order_by_published_id_desc_def)
qed

lemma page_above_cursor:
  assumes "ids_follow_publication db" and "statuses_page db now viewer ident q = (page, Some c)"
    and "p \<in> set page"
  shows "c < post_id p"
proof -
  let ?rows = "matching_posts db now viewer ident q"
  note c = statuses_page_cursor [OF assms(2)]
  from assms(3) obtain k where k: "k < length page" "page ! k = p"
    by (auto simp: in_set_conv_nth)
  with c(2,3) have "k < query_limit q" "p = ?rows ! k" by auto
  with matching_posts_descending_ids [OF assms(1), of now viewer ident q] c(4,5)
  show ?thesis
    by (auto simp: sorted_wrt_iff_nth_less)
qed

lemma follow_cursors_descending_ids:
  assumes "ids_follow_publication db"
  shows "sorted_wrt (\<lambda>a b. post_id a > post_id b) (concat (follow_cursors db now viewer ident q))"
  using assms
proof (induction db now viewer ident q rule: follow_cursors.induct)
  case (1 db now viewer ident q)
  obtain page nxt where sp: "statuses_page db now viewer ident q = (page, nxt)"
    by (cases "statuses_page db now viewer ident q")
  show ?case
  proof (cases nxt)
    case None
    with sp have l: "statuses_page db now viewer ident q = (page, None)" by simp
    show ?thesis
      unfolding follow_cursors_last [OF l] statuses_page_last(1) [OF l]
      using matching_posts_descending_ids [OF "1.prems"] by simp
  next
    case (Some c)
    note sp' = sp [unfolded Some]
    let ?rest = "concat (follow_cursors db now viewer ident (q\<lparr>q_max_id := Some c\<rparr>))"
    have "sorted_wrt (\<lambda>a b. post_id a > post_id b) page"
      unfolding statuses_page_cursor(3) [OF sp']
      using matching_posts_descending_ids [OF "1.prems"] by (rule sorted_wrt_take)
    moreover have "sorted_wrt (\<lambda>a b. post_id a > post_id b) ?rest"
      using "1.IH" [OF sp [symmetric] Some "1.prems"] .
    moreover have "post_id b < post_id a" if "a \<in> set page" "b \<in> set ?rest" for a b
    proof -
      from that(2) have "b \<in> set (matching_posts db now viewer ident (q\<lparr>q_max_id := Some c\<rparr>))"
        by (rule follow_cursors_eligible)
      then have "post_id b < c"
        by (simp add: cursor_below_max_id)
      moreover from "1.prems" sp' that(1) have "c < post_id a"
        by (rule page_above_cursor)
      ultimately show ?thesis by simp
    qed
    ultimately show ?thesis
      unfolding follow_cursors_next [OF sp'] by (simp add: sorted_wrt_append)
  qed
qed

lemma strictly_descending_distinct:
  "sorted_wrt (\<lambda>a b. post_id a > post_id b) xs \<Longrightarrow> distinct xs"
  by (induction xs) auto

text \<open>
  C3, as amended. For every store, viewer, target account and limit, asking for the
  listing and then following the returned \<^verbatim>\<open>max_id\<close> ends. Every post of every page is
  eligible for the viewer (it matches the first request). Every page but the last has
  exactly \<open>limit\<close> posts and the last has at most \<open>limit\<close>, so a page with fewer posts
  than the limit ends the enumeration. When the ids are unique and their order agrees
  with the order of publication, the posts come in strictly decreasing id order over all
  the pages, so that none is returned twice.
\<close>

theorem follow_cursors_enumeration:
  "(\<forall>p \<in> set (concat (follow_cursors db now viewer ident q)).
      p \<in> set (matching_posts db now viewer ident q)) \<and>
   (\<forall>page \<in> set (butlast (follow_cursors db now viewer ident q)). length page = query_limit q) \<and>
   length (last (follow_cursors db now viewer ident q)) \<le> query_limit q \<and>
   (ids_follow_publication db \<longrightarrow>
      sorted_wrt (\<lambda>a b. post_id a > post_id b) (concat (follow_cursors db now viewer ident q)) \<and>
      distinct (concat (follow_cursors db now viewer ident q)))"
  using follow_cursors_eligible [of _ db now viewer ident q]
    follow_cursors_page_sizes [of db now viewer ident q]
    follow_cursors_descending_ids [of db now viewer ident q]
    strictly_descending_distinct [of "concat (follow_cursors db now viewer ident q)"]
  by blast

text \<open>The claim as stated fails both ways. In \<open>skewed_posts\<close> the eligible posts are 61, 62
  and 63 and the pages of limit 1 are post 61 and post 61 again: one post twice, two
  never. In \<open>three_posts\<close>, where the ids agree with the publication times, the eligible
  posts are 13, 12 and 11 and the pages of limit 1 are post 13 and post 11: post 12, whose
  id was the cursor, is in no page.\<close>

theorem follow_cursors_repeats_and_skips:
  "map post_id (matching_posts skewed_posts 0 101 102 (no_options\<lparr>q_limit := Some 1\<rparr>)) = [61, 62, 63] \<and>
   follow_cursors skewed_posts 0 101 102 (no_options\<lparr>q_limit := Some 1\<rparr>)
     = [[public_post 61 102 300], [public_post 61 102 300]] \<and>
   map post_id (matching_posts three_posts 0 101 102 (no_options\<lparr>q_limit := Some 1\<rparr>)) = [13, 12, 11] \<and>
   follow_cursors three_posts 0 101 102 (no_options\<lparr>q_limit := Some 1\<rparr>)
     = [[public_post 13 102 300], [public_post 11 102 100]]"
proof -
  let ?q = "no_options\<lparr>q_limit := Some 1\<rparr>"
  have s1: "statuses_page skewed_posts 0 101 102 ?q = ([public_post 61 102 300], Some 62)"
    and s2: "statuses_page skewed_posts 0 101 102 (?q\<lparr>q_max_id := Some 62\<rparr>)
               = ([public_post 61 102 300], None)"
    and t1: "statuses_page three_posts 0 101 102 ?q = ([public_post 13 102 300], Some 12)"
    and t2: "statuses_page three_posts 0 101 102 (?q\<lparr>q_max_id := Some 12\<rparr>)
               = ([public_post 11 102 100], None)"
    by (simp_all add: statuses_defs example_defs skewed_posts_def three_posts_def)
  have m1: "map post_id (matching_posts skewed_posts 0 101 102 ?q) = [61, 62, 63]"
    and m2: "map post_id (matching_posts three_posts 0 101 102 ?q) = [13, 12, 11]"
    by (simp_all add: statuses_defs example_defs skewed_posts_def three_posts_def)
  have p1: "follow_cursors skewed_posts 0 101 102 ?q
     = [[public_post 61 102 300], [public_post 61 102 300]]"
    by (subst follow_cursors_next [OF s1], subst follow_cursors_last [OF s2]) (rule refl)
  have p2: "follow_cursors three_posts 0 101 102 ?q
     = [[public_post 13 102 300], [public_post 11 102 100]]"
    by (subst follow_cursors_next [OF t1], subst follow_cursors_last [OF t2]) (rule refl)
  from m1 p1 m2 p2 show ?thesis
    by (intro conjI)
qed

theorem follow_cursors_enumeration_witness:
  "ids_follow_publication three_posts \<and>
   follow_cursors three_posts 0 101 102 (no_options\<lparr>q_limit := Some 2\<rparr>)
     = [[public_post 13 102 300, public_post 12 102 200], []] \<and>
   query_limit (no_options\<lparr>q_limit := Some 2\<rparr>) = 2 \<and>
   distinct (concat (follow_cursors three_posts 0 101 102 (no_options\<lparr>q_limit := Some 2\<rparr>)))"
proof -
  let ?q = "no_options\<lparr>q_limit := Some 2\<rparr>"
  have h: "ids_follow_publication three_posts"
    by (simp add: ids_follow_publication_def three_posts_def example_defs)
  have t1: "statuses_page three_posts 0 101 102 ?q
              = ([public_post 13 102 300, public_post 12 102 200], Some 11)"
    and t2: "statuses_page three_posts 0 101 102 (?q\<lparr>q_max_id := Some 11\<rparr>) = ([], None)"
    by (simp_all add: statuses_defs example_defs three_posts_def)
  have pages: "follow_cursors three_posts 0 101 102 ?q
     = [[public_post 13 102 300, public_post 12 102 200], []]"
    by (subst follow_cursors_next [OF t1], subst follow_cursors_last [OF t2]) (rule refl)
  from follow_cursors_enumeration [of three_posts 0 101 102 ?q] h
  have "distinct (concat (follow_cursors three_posts 0 101 102 ?q))"
    by simp
  with h pages show ?thesis
    by (simp add: query_limit_def)
qed

end
